theory Spec2Isabelle
  imports Main "HOL-Library.Word"
begin

section \<open>Data model\<close>

text \<open>
  The source declares every dimension, index and count as \<^verbatim>\<open>unsigned int\<close>; the model
  reads it as a 32-bit word, so \<open>+\<close> and \<open>*\<close> wrap around and \<open>div\<close> is the unsigned
  division of the machine.
\<close>

type_synonym u32 = "32 word"

text \<open>
  The conditions the source raises through \<^verbatim>\<open>Assert\<close> and \<^verbatim>\<open>AssertThrow\<close>, each with
  the values it carries. The last two are not exceptions of the library: they stand for
  the two places where the source leaves defined behaviour, an unsigned division by zero
  and a write behind the end of a \<^verbatim>\<open>std::vector\<close>.
\<close>

datatype error =
    ExcInvalidNumber u32
  | ExcInvalidIndex u32 u32
  | ExcIndexRange u32 u32 u32
  | ExcInvalidConstructorCall
  | ExcNotQuadratic
  | ExcNotImplemented
  | ExcIO
  | DivideByZero
  | OutOfRange

text \<open>
  Modelled from the spec: the coarse structure (class \<^verbatim>\<open>SparsityPattern\<close>) is not among
  the sources. The spec describes it as a mapping from chunk rows to sets of chunk
  columns with the capabilities \<^verbatim>\<open>reinit(chunk_rows, chunk_cols, capacity[], optimize_diag)\<close>,
  \<^verbatim>\<open>add\<close>, \<^verbatim>\<open>exists\<close>, \<^verbatim>\<open>compress\<close> and \<^verbatim>\<open>bandwidth\<close>; insertion of a chunk that is present
  is a no-op, a freshly initialised structure has no entry, and the bandwidth is the
  largest distance between the row and the column index of a present entry.
\<close>

record SparsityPattern =
  sp_rows :: u32
  sp_cols :: u32
  sp_row_lengths :: "u32 list"
  sp_optimize_diag :: bool
  sp_entries :: "(u32 \<times> u32) set"
  sp_compressed :: bool

definition sp_reinit :: "u32 \<Rightarrow> u32 \<Rightarrow> u32 list \<Rightarrow> bool \<Rightarrow> SparsityPattern" where
  "sp_reinit m n row_lengths optimize_diag =
     \<lparr>sp_rows = m, sp_cols = n, sp_row_lengths = row_lengths,
      sp_optimize_diag = optimize_diag, sp_entries = {}, sp_compressed = False\<rparr>"

definition sp_add :: "SparsityPattern \<Rightarrow> u32 \<Rightarrow> u32 \<Rightarrow> SparsityPattern" where
  "sp_add sp i j = sp\<lparr>sp_entries := insert (i, j) (sp_entries sp)\<rparr>"

definition sp_exists :: "SparsityPattern \<Rightarrow> u32 \<Rightarrow> u32 \<Rightarrow> bool" where
  "sp_exists sp i j \<longleftrightarrow> (i, j) \<in> sp_entries sp"

definition sp_compress :: "SparsityPattern \<Rightarrow> SparsityPattern" where
  "sp_compress sp = sp\<lparr>sp_compressed := True\<rparr>"

definition index_distance :: "u32 \<times> u32 \<Rightarrow> u32" where
  "index_distance e = (if fst e \<le> snd e then snd e - fst e else fst e - snd e)"

definition sp_bandwidth :: "SparsityPattern \<Rightarrow> u32" where
  "sp_bandwidth sp =
     (if sp_entries sp = {} then 0 else Max (index_distance ` sp_entries sp))"

text \<open>The chunked pattern itself: the four data members of the class.\<close>

record ChunkSparsityPattern =
  rows :: u32
  cols :: u32
  chunk_size :: u32
  sparsity_pattern :: SparsityPattern

text \<open>
  Modelled from the spec: \<^verbatim>\<open>n_rows()\<close> and \<^verbatim>\<open>n_cols()\<close> are inline accessors of the class
  header, which is not among the sources; the spec clamps the bandwidth to
  \<open>max(rows, cols)\<close>, so they return the two dimension members.
\<close>

definition n_rows :: "ChunkSparsityPattern \<Rightarrow> u32" where
  "n_rows p = rows p"

definition n_cols :: "ChunkSparsityPattern \<Rightarrow> u32" where
  "n_cols p = cols p"

section \<open>Initialisation\<close>

text \<open>
  One pass of the loop of \<^verbatim>\<open>reinit\<close>:
  \<^verbatim>\<open>chunk_row_lengths[i/chunk_size] = std::max (chunk_row_lengths[i/chunk_size], row_lengths[i])\<close>.
  The vector is indexed without a check, so a chunk row behind its end is the
  \<open>OutOfRange\<close> outcome, written \<open>None\<close> here.
\<close>

definition chunk_row_step :: "u32 \<Rightarrow> u32 list \<Rightarrow> nat \<Rightarrow> u32 list option \<Rightarrow> u32 list option" where
  "chunk_row_step c row_lengths i acc =
     (case acc of
        None \<Rightarrow> None
      | Some crl \<Rightarrow>
          (let k = unat ((word_of_nat i :: u32) div c)
           in if k < length crl
              then Some (crl[k := max (crl ! k) (row_lengths ! i)])
              else None))"

text \<open>The loop \<^verbatim>\<open>for (unsigned int i=0; i<m; ++i)\<close> over the freshly zeroed vector.\<close>

definition chunk_row_lengths :: "u32 \<Rightarrow> u32 \<Rightarrow> u32 \<Rightarrow> u32 list \<Rightarrow> u32 list option" where
  "chunk_row_lengths m m_chunks c row_lengths =
     fold (chunk_row_step c row_lengths) [0..<unat m] (Some (replicate (unat m_chunks) 0))"

text \<open>
  \<^verbatim>\<open>reinit (m, n, row_lengths, chunk_size, optimize_diag)\<close>. Every member is assigned, so
  the model builds the object afresh. The length check is the \<^verbatim>\<open>Assert\<close> of the source;
  the divisions \<^verbatim>\<open>(m+chunk_size) / chunk_size\<close> and \<^verbatim>\<open>(n+chunk_size) / chunk_size\<close> are
  unsigned, their sums wrap.
\<close>

definition reinit :: "u32 \<Rightarrow> u32 \<Rightarrow> u32 list \<Rightarrow> u32 \<Rightarrow> bool \<Rightarrow> error + ChunkSparsityPattern" where
  "reinit m n row_lengths c optimize_diag =
     (if length row_lengths \<noteq> unat m then Inl (ExcInvalidNumber m)
      else if c = 0 then Inl DivideByZero
      else
        (let m_chunks = (m + c) div c;
             n_chunks = (n + c) div c
         in case chunk_row_lengths m m_chunks c row_lengths of
              None \<Rightarrow> Inl OutOfRange
            | Some crl \<Rightarrow>
                Inr \<lparr>rows = m, cols = n, chunk_size = c,
                     sparsity_pattern = sp_reinit m_chunks n_chunks crl optimize_diag\<rparr>))"

text \<open>
  \<^verbatim>\<open>reinit (m, n, max_per_row, chunk_size, optimize_diag)\<close>: the same with the vector
  \<^verbatim>\<open>row_lengths (m, max_per_row)\<close>.
\<close>

definition reinit_uniform :: "u32 \<Rightarrow> u32 \<Rightarrow> u32 \<Rightarrow> u32 \<Rightarrow> bool \<Rightarrow> error + ChunkSparsityPattern" where
  "reinit_uniform m n max_per_row c optimize_diag =
     reinit m n (replicate (unat m) max_per_row) c optimize_diag"

text \<open>The default constructor: \<^verbatim>\<open>reinit (0,0,0,0)\<close>, \<^verbatim>\<open>optimize_diag\<close> at its default.\<close>

definition default_ctor :: "bool \<Rightarrow> error + ChunkSparsityPattern" where
  "default_ctor optimize_diag_default = reinit_uniform 0 0 0 0 optimize_diag_default"

text \<open>
  The copy constructor. Its member initialisers copy \<^verbatim>\<open>chunk_size\<close> and the coarse
  structure; copying the coarse structure is an operation of the absent class and is
  taken as the parameter \<open>sp_copy\<close>, which may raise. Then come the two assertions and
  \<^verbatim>\<open>reinit (0,0,0,0, false)\<close>, which overwrites what the initialisers stored.
\<close>

definition copy_ctor ::
  "(SparsityPattern \<Rightarrow> error + SparsityPattern) \<Rightarrow> ChunkSparsityPattern
     \<Rightarrow> error + ChunkSparsityPattern" where
  "copy_ctor sp_copy s =
     (case sp_copy (sparsity_pattern s) of
        Inl e \<Rightarrow> Inl e
      | Inr sp \<Rightarrow>
          if rows s \<noteq> 0 then Inl ExcInvalidConstructorCall
          else if cols s \<noteq> 0 then Inl ExcInvalidConstructorCall
          else reinit_uniform 0 0 0 0 False)"

text \<open>
  \<^verbatim>\<open>operator =\<close>: the two assertions, then the assignment of the coarse structure
  (parameter \<open>sp_assign\<close>, which performs the checks of the absent class). The members
  \<^verbatim>\<open>rows\<close>, \<^verbatim>\<open>cols\<close> and \<^verbatim>\<open>chunk_size\<close> of the target are not assigned.
\<close>

definition assign ::
  "(SparsityPattern \<Rightarrow> SparsityPattern \<Rightarrow> error + SparsityPattern)
     \<Rightarrow> ChunkSparsityPattern \<Rightarrow> ChunkSparsityPattern \<Rightarrow> error + ChunkSparsityPattern" where
  "assign sp_assign this s =
     (if rows s \<noteq> 0 then Inl ExcInvalidConstructorCall
      else if cols s \<noteq> 0 then Inl ExcInvalidConstructorCall
      else case sp_assign (sparsity_pattern this) (sparsity_pattern s) of
             Inl e \<Rightarrow> Inl e
           | Inr sp \<Rightarrow> Inr (this\<lparr>sparsity_pattern := sp\<rparr>))"

section \<open>Mutation and query\<close>

definition compress :: "ChunkSparsityPattern \<Rightarrow> ChunkSparsityPattern" where
  "compress p = p\<lparr>sparsity_pattern := sp_compress (sparsity_pattern p)\<rparr>"

text \<open>
  \<^verbatim>\<open>add (i, j)\<close>: two assertions, then \<^verbatim>\<open>sparsity_pattern.add (i/chunk_size, j/chunk_size)\<close>.
\<close>

definition add :: "ChunkSparsityPattern \<Rightarrow> u32 \<Rightarrow> u32 \<Rightarrow> error + ChunkSparsityPattern" where
  "add p i j =
     (if \<not> i < rows p then Inl (ExcInvalidIndex i (rows p))
      else if \<not> j < cols p then Inl (ExcInvalidIndex j (cols p))
      else if chunk_size p = 0 then Inl DivideByZero
      else Inr (p\<lparr>sparsity_pattern :=
                    sp_add (sparsity_pattern p) (i div chunk_size p) (j div chunk_size p)\<rparr>))"

definition exists :: "ChunkSparsityPattern \<Rightarrow> u32 \<Rightarrow> u32 \<Rightarrow> error + bool" where
  "exists p i j =
     (if \<not> i < rows p then Inl (ExcIndexRange i 0 (rows p))
      else if \<not> j < cols p then Inl (ExcIndexRange j 0 (cols p))
      else if chunk_size p = 0 then Inl DivideByZero
      else Inr (sp_exists (sparsity_pattern p) (i div chunk_size p) (j div chunk_size p)))"

text \<open>
  \<^verbatim>\<open>bandwidth ()\<close>:
  \<^verbatim>\<open>std::min (sparsity_pattern.bandwidth()*chunk_size + (chunk_size-1), std::max(n_rows(), n_cols()))\<close>,
  all in unsigned arithmetic.
\<close>

definition bandwidth :: "ChunkSparsityPattern \<Rightarrow> u32" where
  "bandwidth p =
     min (sp_bandwidth (sparsity_pattern p) * chunk_size p + (chunk_size p - 1))
         (max (n_rows p) (n_cols p))"

text \<open>
  What \<^verbatim>\<open>reinit\<close>, \<^verbatim>\<open>add\<close> and \<^verbatim>\<open>compress\<close> keep true of a pattern when neither
  \<open>m + chunk_size\<close> nor \<open>n + chunk_size\<close> wrapped in \<^verbatim>\<open>reinit\<close>: the chunk size is positive
  and every coarse entry is a chunk that begins inside the logical index range.
\<close>

definition built_inv :: "ChunkSparsityPattern \<Rightarrow> bool" where
  "built_inv p \<longleftrightarrow>
     chunk_size p \<noteq> 0
     \<and> unat (rows p) + unat (chunk_size p) < 2 ^ 32
     \<and> unat (cols p) + unat (chunk_size p) < 2 ^ 32
     \<and> (\<forall>e \<in> sp_entries (sparsity_pattern p).
           unat (fst e) * unat (chunk_size p) < unat (rows p)
           \<and> unat (snd e) * unat (chunk_size p) < unat (cols p))"

text \<open>
  Modelled from the spec: the rounding the spec asks of the chunk counts,
  \<open>ceil(rows / chunk_size)\<close>, over the natural numbers.
\<close>

definition ceil_div :: "nat \<Rightarrow> nat \<Rightarrow> nat" where
  "ceil_div a b = (a + b - 1) div b"

text \<open>The logical rows below \<open>t\<close> that fall into chunk row \<open>k\<close>.\<close>

definition rows_of_chunk :: "nat \<Rightarrow> nat \<Rightarrow> nat \<Rightarrow> nat set" where
  "rows_of_chunk t c k = {i. i < t \<and> i div c = k}"

section \<open>Streams\<close>

text \<open>
  \<^verbatim>\<open>block_write\<close> and \<^verbatim>\<open>block_read\<close> work on the standard streams, which are not code of
  the repository. The model keeps what the two functions use: the bytes and the state a
  stream converts to when tested (\<^verbatim>\<open>AssertThrow (out, ...)\<close>). Insertion into a
  stream that has failed does nothing; insertion into a stream in good state appends the
  bytes and leaves it in good state, so the model is of a stream that accepts every write.
  An unsigned number is inserted as its decimal digits, which is the default formatting;
  the model has no other.
\<close>

record ostream =
  o_good :: bool
  o_bytes :: string

record istream =
  i_good :: bool
  i_bytes :: string

definition put_string :: "string \<Rightarrow> ostream \<Rightarrow> ostream" where
  "put_string s out = (if o_good out then out\<lparr>o_bytes := o_bytes out @ s\<rparr> else out)"

definition put_char :: "char \<Rightarrow> ostream \<Rightarrow> ostream" where
  "put_char c out = put_string [c] out"

definition digit_char :: "nat \<Rightarrow> char" where
  "digit_char d = ''0123456789'' ! d"

fun dec_digits :: "nat \<Rightarrow> string" where
  "dec_digits n =
     (if n < 10 then [digit_char n] else dec_digits (n div 10) @ [digit_char (n mod 10)])"

definition put_uint :: "u32 \<Rightarrow> ostream \<Rightarrow> ostream" where
  "put_uint n out = put_string (dec_digits (unat n)) out"

text \<open>
  Formatted extraction skips leading white space. \<^verbatim>\<open>in >> c\<close> then takes one character;
  at the end of the input it sets the failure state and stores nothing. \<^verbatim>\<open>in >> rows\<close>
  takes an optional sign and the longest run of decimal digits after it; no digit, or
  digits whose value does not fit \<^verbatim>\<open>unsigned int\<close>, set the failure state; after a minus
  sign the value is negated in the unsigned type. Extraction from a stream that has
  failed does nothing.
\<close>

definition is_space :: "char \<Rightarrow> bool" where
  "is_space c \<longleftrightarrow> c \<in> set [CHR '' '', CHR 0x09, CHR 0x0A, CHR 0x0B, CHR 0x0C, CHR 0x0D]"

definition is_digit :: "char \<Rightarrow> bool" where
  "is_digit c \<longleftrightarrow> c \<in> set ''0123456789''"

definition digit_value :: "char \<Rightarrow> nat" where
  "digit_value c = of_char c - 48"

definition digits_value :: "string \<Rightarrow> nat" where
  "digits_value ds = foldl (\<lambda>acc d. acc * 10 + digit_value d) 0 ds"

definition get_char :: "istream \<Rightarrow> char option \<times> istream" where
  "get_char inp =
     (if \<not> i_good inp then (None, inp)
      else case dropWhile is_space (i_bytes inp) of
             [] \<Rightarrow> (None, inp\<lparr>i_good := False, i_bytes := []\<rparr>)
           | c # rest \<Rightarrow> (Some c, inp\<lparr>i_bytes := rest\<rparr>))"

definition split_sign :: "string \<Rightarrow> bool \<times> string" where
  "split_sign bs =
     (case bs of
        [] \<Rightarrow> (False, [])
      | c # cs \<Rightarrow>
          if c = CHR ''-'' then (True, cs)
          else if c = CHR ''+'' then (False, cs)
          else (False, bs))"

definition get_uint :: "istream \<Rightarrow> u32 option \<times> istream" where
  "get_uint inp =
     (if \<not> i_good inp then (None, inp)
      else
        (case split_sign (dropWhile is_space (i_bytes inp)) of (negative, bs) \<Rightarrow>
           (let ds = takeWhile is_digit bs;
                rest = dropWhile is_digit bs
            in if ds = [] then (None, inp\<lparr>i_good := False, i_bytes := bs\<rparr>)
               else if digits_value ds < 2 ^ 32
               then (Some (if negative then - word_of_nat (digits_value ds)
                           else word_of_nat (digits_value ds)),
                     inp\<lparr>i_bytes := rest\<rparr>)
               else (None, inp\<lparr>i_good := False, i_bytes := rest\<rparr>))))"

section \<open>Serialisation\<close>

text \<open>
  Modelled from the spec: block I/O of the coarse structure, which the spec calls an
  opaque payload. The bytes the coarse structure writes are the parameter \<open>payload\<close>;
  its reader is the parameter \<open>parse\<close>, which takes the payload from the front of the
  input and returns the structure read and the rest of the input. Both test the stream
  first, as the members of this repository do.
\<close>

definition sp_block_write :: "(SparsityPattern \<Rightarrow> string) \<Rightarrow> SparsityPattern \<Rightarrow> ostream \<Rightarrow> error + ostream" where
  "sp_block_write payload sp out =
     (if \<not> o_good out then Inl ExcIO else Inr (put_string (payload sp) out))"

definition sp_block_read ::
  "(string \<Rightarrow> (SparsityPattern \<times> string) option) \<Rightarrow> istream
     \<Rightarrow> error + SparsityPattern \<times> istream" where
  "sp_block_read parse inp =
     (if \<not> i_good inp then Inl ExcIO
      else case parse (i_bytes inp) of
             None \<Rightarrow> Inl ExcIO
           | Some (sp, rest) \<Rightarrow> Inr (sp, inp\<lparr>i_bytes := rest\<rparr>))"

text \<open>
  \<^verbatim>\<open>block_write\<close>: \<^verbatim>\<open>out << '[' << rows << ' ' << cols << ' ' << "]["\<close>, the coarse
  structure, \<^verbatim>\<open>out << ']'\<close>, between two tests of the stream.
\<close>

definition block_write ::
  "(SparsityPattern \<Rightarrow> string) \<Rightarrow> ChunkSparsityPattern \<Rightarrow> ostream \<Rightarrow> error + ostream" where
  "block_write payload p out =
     (if \<not> o_good out then Inl ExcIO
      else
        (let out1 = put_string ''][''
                      (put_char CHR '' ''
                        (put_uint (cols p)
                          (put_char CHR '' ''
                            (put_uint (rows p)
                              (put_char CHR ''['' out)))))
         in case sp_block_write payload (sparsity_pattern p) out1 of
              Inl e \<Rightarrow> Inl e
            | Inr out2 \<Rightarrow>
                (let out3 = put_char CHR '']'' out2
                 in if \<not> o_good out3 then Inl ExcIO else Inr out3)))"

text \<open>
  \<^verbatim>\<open>block_read\<close>. The local \<^verbatim>\<open>c\<close> keeps its value when an extraction fails, and that
  value is never the delimiter tested next (before the first extraction it is
  uninitialised, and the model lets that test fail); so each test fails exactly when its
  extraction, or one before it, has failed or has delivered another character. The
  members \<^verbatim>\<open>rows\<close>, \<^verbatim>\<open>cols\<close> and the coarse structure are assigned; \<^verbatim>\<open>chunk_size\<close> is not
  touched.
\<close>

definition block_read ::
  "(string \<Rightarrow> (SparsityPattern \<times> string) option) \<Rightarrow> ChunkSparsityPattern \<Rightarrow> istream
     \<Rightarrow> error + ChunkSparsityPattern \<times> istream" where
  "block_read parse p inp =
     (if \<not> i_good inp then Inl ExcIO
      else case get_char inp of (c1, in1) \<Rightarrow>
        if c1 \<noteq> Some CHR ''['' then Inl ExcIO
        else case get_uint in1 of (r, in2) \<Rightarrow>
             case get_uint in2 of (cl, in3) \<Rightarrow>
             case get_char in3 of (c2, in4) \<Rightarrow>
        if c2 \<noteq> Some CHR '']'' then Inl ExcIO
        else case get_char in4 of (c3, in5) \<Rightarrow>
        if c3 \<noteq> Some CHR ''['' then Inl ExcIO
        else case (r, cl) of
               (Some r', Some cl') \<Rightarrow>
                 (case sp_block_read parse in5 of
                    Inl e \<Rightarrow> Inl e
                  | Inr (sp, in6) \<Rightarrow>
                      (case get_char in6 of (c4, in7) \<Rightarrow>
                         if c4 \<noteq> Some CHR '']'' then Inl ExcIO
                         else Inr (p\<lparr>rows := r', cols := cl', sparsity_pattern := sp\<rparr>, in7)))
             | _ \<Rightarrow> Inl ExcIO)"

text \<open>
  Modelled from the spec: the byte sequence the spec gives for the persistence format,
  ``literal \<open>[\<close>, decimal rows, space, decimal cols, literal \<open>]\<close>, literal \<open>[\<close>, the coarse
  payload, literal \<open>]\<close>''.
\<close>

definition spec_block_format :: "(SparsityPattern \<Rightarrow> string) \<Rightarrow> ChunkSparsityPattern \<Rightarrow> string" where
  "spec_block_format payload p =
     ''['' @ dec_digits (unat (rows p)) @ '' '' @ dec_digits (unat (cols p)) @ '']''
       @ ''['' @ payload (sparsity_pattern p) @ '']''"

section \<open>Bulk construction\<close>

text \<open>
  The values the counter of \<^verbatim>\<open>for (unsigned int i=0; i<n; ++i)\<close> takes, and a loop over
  a sequence of values whose body may raise: the first raise ends it.
\<close>

definition upto_u32 :: "u32 \<Rightarrow> u32 list" where
  "upto_u32 n = map word_of_nat [0..<unat n]"

fun for_each :: "'i list \<Rightarrow> ('i \<Rightarrow> 's \<Rightarrow> error + 's) \<Rightarrow> 's \<Rightarrow> error + 's" where
  "for_each [] body s = Inr s"
| "for_each (x # xs) body s =
     (case body x s of Inl e \<Rightarrow> Inl e | Inr s' \<Rightarrow> for_each xs body s')"

text \<open>\<^verbatim>\<open>++entries_per_row[row]\<close>; the vector has one slot per row of the source.\<close>

definition incr_row :: "u32 \<Rightarrow> u32 list \<Rightarrow> u32 list" where
  "incr_row row epr = epr[unat row := epr ! unat row + 1]"

text \<open>
  Modelled from the spec: the compressed pattern with ordered rows
  (\<^verbatim>\<open>CompressedSparsityPattern\<close>) is not among the sources. It is consumed through its row
  count, its column count, \<^verbatim>\<open>row_length(row)\<close> and \<^verbatim>\<open>column_number(row, j)\<close>; the model
  keeps the column indices of each row in the order \<^verbatim>\<open>column_number\<close> delivers them.
\<close>

record CompressedSparsityPattern =
  csp_n_rows :: u32
  csp_n_cols :: u32
  csp_lines :: "u32 list list"

definition csp_row_length :: "CompressedSparsityPattern \<Rightarrow> u32 \<Rightarrow> u32" where
  "csp_row_length csp row = word_of_nat (length (csp_lines csp ! unat row))"

definition csp_column_number :: "CompressedSparsityPattern \<Rightarrow> u32 \<Rightarrow> u32 \<Rightarrow> u32" where
  "csp_column_number csp row j = csp_lines csp ! unat row ! unat j"

text \<open>
  Modelled from the spec: the compressed pattern with set-like rows
  (\<^verbatim>\<open>CompressedSetSparsityPattern\<close>) is not among the sources. It is consumed through its
  row count, its column count and a forward iterator over the columns of a row;
  \<open>cset_row\<close> is the sequence the iterator yields from \<^verbatim>\<open>row_begin(row)\<close> to
  \<^verbatim>\<open>row_end(row)\<close>.
\<close>

record CompressedSetSparsityPattern =
  cset_n_rows :: u32
  cset_n_cols :: u32
  cset_lines :: "u32 list list"

definition cset_row :: "CompressedSetSparsityPattern \<Rightarrow> u32 \<Rightarrow> u32 list" where
  "cset_row s row = cset_lines s ! unat row"

text \<open>
  The dense matrix of \<^verbatim>\<open>full_matrix.h\<close>: the component array and the two dimensions.
  \<^verbatim>\<open>el\<close> reads \<^verbatim>\<open>val[i*dim_range+j]\<close> without a check, \<^verbatim>\<open>operator()\<close> asserts both
  indices first (its second assertion reports \<open>i\<close>, as the source does).
\<close>

record 'a FullMatrix =
  val :: "'a list"
  dim_range :: u32
  dim_image :: u32

definition el :: "'a FullMatrix \<Rightarrow> u32 \<Rightarrow> u32 \<Rightarrow> error + 'a" where
  "el M i j =
     (let k = unat (i * dim_range M + j)
      in if k < length (val M) then Inr (val M ! k) else Inl OutOfRange)"

definition fm_at :: "'a FullMatrix \<Rightarrow> u32 \<Rightarrow> u32 \<Rightarrow> error + 'a" where
  "fm_at M i j =
     (if \<not> i < dim_image M then Inl (ExcInvalidIndex i (dim_image M))
      else if \<not> j < dim_range M then Inl (ExcInvalidIndex i (dim_range M))
      else el M i j)"

definition fm_m :: "'a FullMatrix \<Rightarrow> u32" where
  "fm_m M = dim_image M"

definition fm_n :: "'a FullMatrix \<Rightarrow> u32" where
  "fm_n M = dim_range M"

text \<open>\<^verbatim>\<open>copy_from (const CompressedSparsityPattern &, chunk_size, optimize_diag)\<close>.\<close>

definition entries_per_row_csp :: "CompressedSparsityPattern \<Rightarrow> u32 list" where
  "entries_per_row_csp csp =
     fold (\<lambda>row epr. fold (\<lambda>j. incr_row row) (upto_u32 (csp_row_length csp row)) epr)
       (upto_u32 (csp_n_rows csp)) (replicate (unat (csp_n_rows csp)) 0)"

definition fill_csp ::
  "CompressedSparsityPattern \<Rightarrow> ChunkSparsityPattern \<Rightarrow> error + ChunkSparsityPattern" where
  "fill_csp csp p =
     for_each (upto_u32 (csp_n_rows csp))
       (\<lambda>row. for_each (upto_u32 (csp_row_length csp row))
                 (\<lambda>j q. add q row (csp_column_number csp row j))) p"

definition copy_from_csp ::
  "CompressedSparsityPattern \<Rightarrow> u32 \<Rightarrow> bool \<Rightarrow> error + ChunkSparsityPattern" where
  "copy_from_csp csp c optimize_diag =
     (case reinit (csp_n_rows csp) (csp_n_cols csp) (entries_per_row_csp csp) c optimize_diag of
        Inl e \<Rightarrow> Inl e
      | Inr p \<Rightarrow> (case fill_csp csp p of Inl e \<Rightarrow> Inl e | Inr q \<Rightarrow> Inr (compress q)))"

text \<open>\<^verbatim>\<open>copy_from (const CompressedSetSparsityPattern &, chunk_size, optimize_diag)\<close>.\<close>

definition entries_per_row_cset :: "CompressedSetSparsityPattern \<Rightarrow> u32 list" where
  "entries_per_row_cset s =
     fold (\<lambda>row epr. fold (\<lambda>col. incr_row row) (cset_row s row) epr)
       (upto_u32 (cset_n_rows s)) (replicate (unat (cset_n_rows s)) 0)"

definition fill_cset ::
  "CompressedSetSparsityPattern \<Rightarrow> ChunkSparsityPattern \<Rightarrow> error + ChunkSparsityPattern" where
  "fill_cset s p =
     for_each (upto_u32 (cset_n_rows s))
       (\<lambda>row. for_each (cset_row s row) (\<lambda>col q. add q row col)) p"

definition copy_from_cset ::
  "CompressedSetSparsityPattern \<Rightarrow> u32 \<Rightarrow> bool \<Rightarrow> error + ChunkSparsityPattern" where
  "copy_from_cset s c optimize_diag =
     (case reinit (cset_n_rows s) (cset_n_cols s) (entries_per_row_cset s) c optimize_diag of
        Inl e \<Rightarrow> Inl e
      | Inr p \<Rightarrow> (case fill_cset s p of Inl e \<Rightarrow> Inl e | Inr q \<Rightarrow> Inr (compress q)))"

text \<open>
  \<^verbatim>\<open>copy_from (const FullMatrix<number> &, chunk_size, optimize_diag)\<close>, for any element
  type with a zero; the test is \<^verbatim>\<open>matrix(row,col) != 0\<close>.
\<close>

definition entries_per_row_fm :: "'a::zero FullMatrix \<Rightarrow> error + u32 list" where
  "entries_per_row_fm M =
     for_each (upto_u32 (fm_m M))
       (\<lambda>row. for_each (upto_u32 (fm_n M))
                 (\<lambda>col epr. case fm_at M row col of
                                Inl e \<Rightarrow> Inl e
                              | Inr v \<Rightarrow> Inr (if v \<noteq> 0 then incr_row row epr else epr)))
       (replicate (unat (fm_m M)) 0)"

definition fill_fm ::
  "'a::zero FullMatrix \<Rightarrow> ChunkSparsityPattern \<Rightarrow> error + ChunkSparsityPattern" where
  "fill_fm M p =
     for_each (upto_u32 (fm_m M))
       (\<lambda>row. for_each (upto_u32 (fm_n M))
                 (\<lambda>col q. case fm_at M row col of
                              Inl e \<Rightarrow> Inl e
                            | Inr v \<Rightarrow> if v \<noteq> 0 then add q row col else Inr q)) p"

definition copy_from_fm :: "'a::zero FullMatrix \<Rightarrow> u32 \<Rightarrow> bool \<Rightarrow> error + ChunkSparsityPattern" where
  "copy_from_fm M c optimize_diag =
     (case entries_per_row_fm M of
        Inl e \<Rightarrow> Inl e
      | Inr epr \<Rightarrow>
          (case reinit (fm_m M) (fm_n M) epr c optimize_diag of
             Inl e \<Rightarrow> Inl e
           | Inr p \<Rightarrow> (case fill_fm M p of Inl e \<Rightarrow> Inl e | Inr q \<Rightarrow> Inr (compress q))))"

text \<open>
  The fourth way the spec lists: the caller passes the row lengths to \<^verbatim>\<open>reinit\<close>, calls
  \<^verbatim>\<open>add\<close> for each entry of its own sequence, and calls \<^verbatim>\<open>compress\<close>.
\<close>

definition build_explicit ::
  "u32 \<Rightarrow> u32 \<Rightarrow> u32 list \<Rightarrow> u32 \<Rightarrow> bool \<Rightarrow> (u32 \<times> u32) list \<Rightarrow> error + ChunkSparsityPattern" where
  "build_explicit m n row_lengths c optimize_diag insertions =
     (case reinit m n row_lengths c optimize_diag of
        Inl e \<Rightarrow> Inl e
      | Inr p \<Rightarrow>
          (case for_each insertions (\<lambda>e q. add q (fst e) (snd e)) p of
             Inl e \<Rightarrow> Inl e
           | Inr q \<Rightarrow> Inr (compress q)))"

text \<open>
  The structurally nonzero positions of each kind of source, in the order its fill loop
  visits them, and what makes a source well formed: one line per row, no column twice in
  a line, every column below the column count; for the matrix, a component array that
  holds all \<open>m * n\<close> elements and whose size fits \<^verbatim>\<open>unsigned int\<close> (\<^verbatim>\<open>val_size\<close>).
\<close>

definition lines_entries :: "u32 \<Rightarrow> u32 list list \<Rightarrow> (u32 \<times> u32) list" where
  "lines_entries m lines =
     concat (map (\<lambda>row. map (Pair row) (lines ! unat row)) (upto_u32 m))"

definition lines_wf :: "u32 \<Rightarrow> u32 \<Rightarrow> u32 list list \<Rightarrow> bool" where
  "lines_wf m n lines \<longleftrightarrow>
     length lines = unat m \<and> (\<forall>line \<in> set lines. distinct line \<and> (\<forall>col \<in> set line. col < n))"

definition csp_entries :: "CompressedSparsityPattern \<Rightarrow> (u32 \<times> u32) list" where
  "csp_entries csp = lines_entries (csp_n_rows csp) (csp_lines csp)"

definition csp_wf :: "CompressedSparsityPattern \<Rightarrow> bool" where
  "csp_wf csp \<longleftrightarrow> lines_wf (csp_n_rows csp) (csp_n_cols csp) (csp_lines csp)"

definition cset_entries :: "CompressedSetSparsityPattern \<Rightarrow> (u32 \<times> u32) list" where
  "cset_entries s = lines_entries (cset_n_rows s) (cset_lines s)"

definition cset_wf :: "CompressedSetSparsityPattern \<Rightarrow> bool" where
  "cset_wf s \<longleftrightarrow> lines_wf (cset_n_rows s) (cset_n_cols s) (cset_lines s)"

definition fm_nonzero :: "'a::zero FullMatrix \<Rightarrow> u32 \<Rightarrow> u32 \<Rightarrow> bool" where
  "fm_nonzero M row col \<longleftrightarrow> val M ! unat (row * dim_range M + col) \<noteq> 0"

definition fm_entries :: "'a::zero FullMatrix \<Rightarrow> (u32 \<times> u32) list" where
  "fm_entries M =
     concat (map (\<lambda>row. map (Pair row) (filter (fm_nonzero M row) (upto_u32 (dim_range M))))
               (upto_u32 (dim_image M)))"

definition fm_wf :: "'a FullMatrix \<Rightarrow> bool" where
  "fm_wf M \<longleftrightarrow>
     unat (dim_image M) * unat (dim_range M) \<le> length (val M) \<and> length (val M) < 2 ^ 32"

text \<open>
  What a construction computes from the dimensions and the set \<open>E\<close> of nonzero positions:
  \<^verbatim>\<open>reinit\<close> with the number of positions of each row, the chunks of the positions as
  coarse entries, compressed.
\<close>

definition chunk_of :: "u32 \<Rightarrow> u32 \<times> u32 \<Rightarrow> u32 \<times> u32" where
  "chunk_of c e = (fst e div c, snd e div c)"

definition with_chunks :: "ChunkSparsityPattern \<Rightarrow> (u32 \<times> u32) set \<Rightarrow> ChunkSparsityPattern" where
  "with_chunks p E =
     p\<lparr>sparsity_pattern := (sparsity_pattern p)
          \<lparr>sp_entries := sp_entries (sparsity_pattern p) \<union> chunk_of (chunk_size p) ` E\<rparr>\<rparr>"

definition row_count :: "(u32 \<times> u32) set \<Rightarrow> u32 \<Rightarrow> u32" where
  "row_count E row = word_of_nat (card (snd ` Set.filter (\<lambda>e. fst e = row) E))"

definition pattern_of_entries ::
  "u32 \<Rightarrow> u32 \<Rightarrow> (u32 \<times> u32) set \<Rightarrow> u32 \<Rightarrow> bool \<Rightarrow> error + ChunkSparsityPattern" where
  "pattern_of_entries m n E c optimize_diag =
     (case reinit m n (map (row_count E) (upto_u32 m)) c optimize_diag of
        Inl e \<Rightarrow> Inl e
      | Inr p \<Rightarrow> Inr (compress (with_chunks p E)))"

text \<open>
  When a source holds the set \<open>E\<close> of structurally nonzero positions of an \<open>m\<close> by \<open>n\<close>
  matrix: it is well formed, has these dimensions, and its positions are \<open>E\<close>. For the
  caller's own loop: the row lengths are the numbers of positions of the rows, and the
  insertions are the positions of \<open>E\<close>, in any order and with or without repetition.
\<close>

definition csp_represents ::
  "CompressedSparsityPattern \<Rightarrow> u32 \<Rightarrow> u32 \<Rightarrow> (u32 \<times> u32) set \<Rightarrow> bool" where
  "csp_represents csp m n E \<longleftrightarrow>
     csp_wf csp \<and> csp_n_rows csp = m \<and> csp_n_cols csp = n \<and> set (csp_entries csp) = E"

definition cset_represents ::
  "CompressedSetSparsityPattern \<Rightarrow> u32 \<Rightarrow> u32 \<Rightarrow> (u32 \<times> u32) set \<Rightarrow> bool" where
  "cset_represents s m n E \<longleftrightarrow>
     cset_wf s \<and> cset_n_rows s = m \<and> cset_n_cols s = n \<and> set (cset_entries s) = E"

definition fm_represents ::
  "'a::zero FullMatrix \<Rightarrow> u32 \<Rightarrow> u32 \<Rightarrow> (u32 \<times> u32) set \<Rightarrow> bool" where
  "fm_represents M m n E \<longleftrightarrow>
     fm_wf M \<and> dim_image M = m \<and> dim_range M = n \<and> set (fm_entries M) = E"

definition explicit_represents ::
  "u32 list \<Rightarrow> (u32 \<times> u32) list \<Rightarrow> u32 \<Rightarrow> u32 \<Rightarrow> (u32 \<times> u32) set \<Rightarrow> bool" where
  "explicit_represents row_lengths insertions m n E \<longleftrightarrow>
     row_lengths = map (row_count E) (upto_u32 m) \<and> set insertions = E
     \<and> (\<forall>e \<in> set insertions. fst e < m \<and> snd e < n)"

section \<open>A sample pattern and a sample coarse codec\<close>

text \<open>
  The values the examples below run on. \<open>demo_written\<close> is the 4 by 4 pattern with chunk
  size 2 that \<^verbatim>\<open>reinit (4, 4, 1, 2, false)\<close>, \<^verbatim>\<open>add (0, 0)\<close> and \<^verbatim>\<open>compress ()\<close> build;
  \<open>demo_reader\<close> is the fresh 4 by 4 pattern with chunk size 1. The block I/O of the
  coarse structure being opaque, the examples instantiate it with a one-byte payload
  whose reader returns the coarse structure of \<open>demo_written\<close>.
\<close>

definition demo_coarse :: SparsityPattern where
  "demo_coarse = \<lparr>sp_rows = 3, sp_cols = 3, sp_row_lengths = [1, 1, 0],
     sp_optimize_diag = False, sp_entries = {(0, 0)}, sp_compressed = True\<rparr>"

definition demo_written :: ChunkSparsityPattern where
  "demo_written = \<lparr>rows = 4, cols = 4, chunk_size = 2, sparsity_pattern = demo_coarse\<rparr>"

definition demo_reader :: ChunkSparsityPattern where
  "demo_reader = \<lparr>rows = 4, cols = 4, chunk_size = 1,
     sparsity_pattern = sp_reinit 5 5 [1, 1, 1, 1, 0] False\<rparr>"

definition demo_payload :: "SparsityPattern \<Rightarrow> string" where
  "demo_payload sp = ''x''"

definition demo_parse :: "string \<Rightarrow> (SparsityPattern \<times> string) option" where
  "demo_parse s =
     (case s of
        [] \<Rightarrow> None
      | c # rest \<Rightarrow> if c = CHR ''x'' then Some (demo_coarse, rest) else None)"

text \<open>
  The sources of the bulk-construction example: a 2 by 3 matrix with nonzero elements at
  (0,0), (0,2) and (1,2), the two compressed patterns with the same positions, and the
  pattern they give with chunk size 2.
\<close>

definition demo_matrix :: "int FullMatrix" where
  "demo_matrix = \<lparr>val = [1, 0, 2, 0, 0, 3], dim_range = 3, dim_image = 2\<rparr>"

definition demo_csp :: CompressedSparsityPattern where
  "demo_csp = \<lparr>csp_n_rows = 2, csp_n_cols = 3, csp_lines = [[0, 2], [2]]\<rparr>"

definition demo_cset :: CompressedSetSparsityPattern where
  "demo_cset = \<lparr>cset_n_rows = 2, cset_n_cols = 3, cset_lines = [[0, 2], [2]]\<rparr>"

definition demo_built :: ChunkSparsityPattern where
  "demo_built = \<lparr>rows = 2, cols = 3, chunk_size = 2,
     sparsity_pattern = \<lparr>sp_rows = 2, sp_cols = 2, sp_row_lengths = [2, 0],
       sp_optimize_diag = False, sp_entries = {(0, 0), (0, 1)}, sp_compressed = True\<rparr>\<rparr>"

section \<open>Word arithmetic used below\<close>

lemma unat_min: "unat (min a b) = min (unat a) (unat b)" for a b :: "'a::len word"
  by (simp add: min_def word_le_nat_alt)

lemma unat_max: "unat (max a b) = max (unat a) (unat b)" for a b :: "'a::len word"
  by (simp add: max_def word_le_nat_alt)

lemma unat_chunk_index:
  "i < 2 ^ 32 \<Longrightarrow> unat ((word_of_nat i :: u32) div c) = i div unat c"
  by (simp add: unat_div unat_of_nat)

lemma unat_chunks_no_wrap:
  fixes m c :: u32
  assumes "c \<noteq> 0" "unat m + unat c < 2 ^ 32"
  shows "unat ((m + c) div c) = unat m div unat c + 1"
proof -
  have "unat (m + c) = unat m + unat c"
    using assms(2) unat_add_lem [of m c] by simp
  moreover have "0 < unat c" using assms(1) by (simp add: unat_gt_0)
  ultimately show ?thesis
    using div_add_self2 [of "unat c" "unat m"] by (simp add: unat_div)
qed

section \<open>Properties of the initialisation\<close>

lemma reinit_zero_chunk:
  "length row_lengths = unat m \<Longrightarrow> reinit m n row_lengths 0 od = Inl DivideByZero"
  by (simp add: reinit_def)

lemma reinit_uniform_zero_chunk: "reinit_uniform m n k 0 od = Inl DivideByZero"
  by (simp add: reinit_uniform_def reinit_def)

lemma reinit_not_div_zero:
  "c \<noteq> 0 \<Longrightarrow> reinit m n row_lengths c od \<noteq> Inl DivideByZero"
  by (simp add: reinit_def Let_def split: option.splits)

lemma reinit_Inr_fields:
  assumes "reinit m n row_lengths c od = Inr p"
  shows "rows p = m" "cols p = n" "chunk_size p = c" "c \<noteq> 0"
    "length row_lengths = unat m"
    "sp_rows (sparsity_pattern p) = (m + c) div c"
    "sp_cols (sparsity_pattern p) = (n + c) div c"
    "sp_entries (sparsity_pattern p) = {}"
    "sp_optimize_diag (sparsity_pattern p) = od"
    "sp_compressed (sparsity_pattern p) = False"
    "chunk_row_lengths m ((m + c) div c) c row_lengths = Some (sp_row_lengths (sparsity_pattern p))"
  using assms
  by (auto simp: reinit_def Let_def sp_reinit_def split: if_splits option.splits)

lemma rows_of_chunk_Suc:
  "rows_of_chunk (Suc t) c k =
     (if t div c = k then insert t (rows_of_chunk t c k) else rows_of_chunk t c k)"
  by (auto simp: rows_of_chunk_def less_Suc_eq)

lemma rows_of_chunk_0 [simp]: "rows_of_chunk 0 c k = {}"
  by (simp add: rows_of_chunk_def)

lemma finite_rows_of_chunk [simp]: "finite (rows_of_chunk t c k)"
  by (simp add: rows_of_chunk_def)

lemma chunk_row_step_None [simp]: "chunk_row_step c rl i None = None"
  by (simp add: chunk_row_step_def)

text \<open>
  The loop invariant: after the rows below \<open>t\<close>, slot \<open>k\<close> holds the largest of its
  initial value and the row lengths of the rows of chunk \<open>k\<close> seen so far.
\<close>

lemma chunk_row_fold_max:
  assumes "fold (chunk_row_step c rl) [0..<t] (Some init) = Some crl" "t \<le> 2 ^ 32"
  shows "length crl = length init
     \<and> (\<forall>k<length init. crl ! k = Max (insert (init ! k) ((!) rl ` rows_of_chunk t (unat c) k)))"
  using assms
proof (induction t arbitrary: crl)
  case 0
  then show ?case by simp
next
  case (Suc t)
  let ?prev = "fold (chunk_row_step c rl) [0..<t] (Some init)"
  from Suc.prems have step: "chunk_row_step c rl t ?prev = Some crl"
    by simp
  then obtain crl0 where prev: "?prev = Some crl0"
    by (cases ?prev) simp_all
  from Suc.prems have t: "t < 2 ^ 32" by simp
  let ?k = "t div unat c"
  from step prev t have kt: "?k < length crl0"
    and crl: "crl = crl0[?k := max (crl0 ! ?k) (rl ! t)]"
    by (auto simp: chunk_row_step_def Let_def unat_chunk_index split: if_splits)
  from Suc.IH [OF prev] t have len: "length crl0 = length init"
    and ih: "\<And>k. k < length init \<Longrightarrow>
          crl0 ! k = Max (insert (init ! k) ((!) rl ` rows_of_chunk t (unat c) k))"
    by simp_all
  show ?case
  proof (intro conjI allI impI)
    show "length crl = length init" using crl len by simp
  next
    fix k assume k: "k < length init"
    show "crl ! k = Max (insert (init ! k) ((!) rl ` rows_of_chunk (Suc t) (unat c) k))"
    proof (cases "?k = k")
      case True
      have "crl ! k = max (crl0 ! k) (rl ! t)"
        using crl True kt by simp
      also have "\<dots> = max (rl ! t) (Max (insert (init ! k) ((!) rl ` rows_of_chunk t (unat c) k)))"
        using ih [OF k] by (simp add: max.commute)
      also have "\<dots> = Max (insert (rl ! t) (insert (init ! k) ((!) rl ` rows_of_chunk t (unat c) k)))"
        by (subst Max_insert) simp_all
      finally show ?thesis
        using True by (simp add: rows_of_chunk_Suc insert_commute)
    next
      case False
      then have "crl ! k = crl0 ! k" using crl by simp
      then show ?thesis using ih [OF k] False by (simp add: rows_of_chunk_Suc)
    qed
  qed
qed

text \<open>The loop stays inside the vector when every chunk row it meets has a slot.\<close>

lemma chunk_row_fold_total:
  assumes "t \<le> 2 ^ 32" "\<And>i. i < t \<Longrightarrow> i div unat c < length init"
  shows "\<exists>crl. fold (chunk_row_step c rl) [0..<t] (Some init) = Some crl \<and> length crl = length init"
  using assms
proof (induction t)
  case 0
  then show ?case by simp
next
  case (Suc t)
  then obtain crl0 where prev: "fold (chunk_row_step c rl) [0..<t] (Some init) = Some crl0"
    and len: "length crl0 = length init"
    by auto
  from Suc.prems have t: "t < 2 ^ 32" "t div unat c < length init" by simp_all
  have "fold (chunk_row_step c rl) [0..<Suc t] (Some init) = chunk_row_step c rl t (Some crl0)"
    using prev by simp
  also have "\<dots> = Some (crl0[t div unat c := max (crl0 ! (t div unat c)) (rl ! t)])"
    using t len by (simp add: chunk_row_step_def Let_def unat_chunk_index)
  finally show ?case using len by simp
qed

text \<open>
  \<^verbatim>\<open>reinit\<close> returns whenever the row-length vector fits, the chunk size is positive and
  \<open>m + chunk_size\<close> does not wrap.
\<close>

lemma reinit_total:
  assumes "length row_lengths = unat m" "c \<noteq> 0" "unat m + unat c < 2 ^ 32"
  shows "\<exists>p. reinit m n row_lengths c od = Inr p"
proof -
  have m: "unat m \<le> 2 ^ 32" using assms(3) by simp
  have "0 < unat c" using assms(2) by (simp add: unat_gt_0)
  then have "\<And>i. i < unat m \<Longrightarrow> i div unat c < length (replicate (unat ((m + c) div c)) (0::u32))"
    using unat_chunks_no_wrap [OF assms(2,3)]
    by (simp add: less_Suc_eq_le div_le_mono)
  from chunk_row_fold_total [OF m this]
  obtain crl where "chunk_row_lengths m ((m + c) div c) c row_lengths = Some crl"
    by (auto simp: chunk_row_lengths_def)
  then show ?thesis using assms(1,2) by (simp add: reinit_def Let_def)
qed

text \<open>
  Without wrap-around the source's chunk count is one more than the quotient, whatever
  the remainder.
\<close>

lemma reinit_chunk_rows_no_wrap:
  assumes "reinit m n row_lengths c od = Inr p" "unat m + unat c < 2 ^ 32"
  shows "unat (sp_rows (sparsity_pattern p)) = unat m div unat c + 1"
  using reinit_Inr_fields(4,6) [OF assms(1)] unat_chunks_no_wrap [OF _ assms(2)] by simp

section \<open>Decimal numbers and stream extraction\<close>

declare dec_digits.simps [simp del]

lemma digit_cases:
  assumes "d < 10"
  shows "d \<in> {0, 1, 2, 3, 4, 5, 6, 7, 8, 9::nat}"
  using assms by auto

lemma digit_char_props:
  assumes "d < 10"
  shows "is_digit (digit_char d)" "digit_value (digit_char d) = d" "\<not> is_space (digit_char d)"
  using digit_cases [OF assms]
  by (auto simp: digit_char_def is_digit_def digit_value_def is_space_def)

lemma dec_digits_not_Nil: "dec_digits n \<noteq> []"
  by (subst dec_digits.simps) simp

lemma dec_digits_all_digits: "\<forall>c \<in> set (dec_digits n). is_digit c"
proof (induction n rule: dec_digits.induct)
  case (1 n)
  show ?case
  proof (cases "n < 10")
    case True
    then show ?thesis
      by (subst dec_digits.simps) (simp add: digit_char_props)
  next
    case False
    then show ?thesis
      using 1 by (subst dec_digits.simps) (simp add: digit_char_props)
  qed
qed

lemma digits_value_snoc: "digits_value (ds @ [d]) = digits_value ds * 10 + digit_value d"
  by (simp add: digits_value_def)

lemma digits_value_dec_digits: "digits_value (dec_digits n) = n"
proof (induction n rule: dec_digits.induct)
  case (1 n)
  show ?case
  proof (cases "n < 10")
    case True
    then show ?thesis
      by (subst dec_digits.simps) (simp add: digits_value_def digit_char_props)
  next
    case False
    then have "digits_value (dec_digits (n div 10)) = n div 10" using 1 by simp
    then show ?thesis
      using False
      by (subst dec_digits.simps) (simp add: digits_value_snoc digit_char_props)
  qed
qed

lemma takeWhile_dec_digits:
  "\<not> is_digit c \<Longrightarrow> takeWhile is_digit (dec_digits n @ c # rest) = dec_digits n"
  using dec_digits_all_digits [of n] by (simp add: takeWhile_append2)

lemma dropWhile_dec_digits:
  "\<not> is_digit c \<Longrightarrow> dropWhile is_digit (dec_digits n @ c # rest) = c # rest"
  using dec_digits_all_digits [of n] by (simp add: dropWhile_append2)

lemma digit_not_space: "is_digit c \<Longrightarrow> \<not> is_space c"
  by (auto simp: is_digit_def is_space_def)

lemma dropWhile_space_dec_digits:
  "dropWhile is_space (dec_digits n @ xs) = dec_digits n @ xs"
proof -
  obtain d ds where ds: "dec_digits n = d # ds"
    using dec_digits_not_Nil [of n] by (cases "dec_digits n") simp_all
  then have "is_digit d" using dec_digits_all_digits [of n] by simp
  then show ?thesis using ds by (simp add: digit_not_space)
qed

lemma split_sign_dec_digits: "split_sign (dec_digits n @ xs) = (False, dec_digits n @ xs)"
proof -
  obtain d ds where ds: "dec_digits n = d # ds"
    using dec_digits_not_Nil [of n] by (cases "dec_digits n") simp_all
  then have "is_digit d" using dec_digits_all_digits [of n] by simp
  then have "d \<noteq> CHR ''-''" "d \<noteq> CHR ''+''"
    by (auto simp: is_digit_def)
  then show ?thesis using ds by (simp add: split_sign_def)
qed

lemma get_uint_dec_digits:
  assumes "i_good inp" "dropWhile is_space (i_bytes inp) = dec_digits (unat w) @ c # rest"
    "\<not> is_digit c"
  shows "get_uint inp = (Some w, inp\<lparr>i_bytes := c # rest\<rparr>)"
proof -
  have "unat w < 2 ^ 32"
    using unsigned_less [of w, where 'a = nat] by simp
  then show ?thesis
    using assms
    by (simp add: get_uint_def Let_def split_sign_dec_digits takeWhile_dec_digits
        dropWhile_dec_digits dec_digits_not_Nil digits_value_dec_digits)
qed

text \<open>A sign is read: \<open>+4\<close> is 4, and \<open>-1\<close> is the largest value of the type.\<close>

lemma get_uint_signed:
  "get_uint \<lparr>i_good = True, i_bytes = ''+4 ''\<rparr> = (Some 4, \<lparr>i_good = True, i_bytes = '' ''\<rparr>)"
  "get_uint \<lparr>i_good = True, i_bytes = ''-1]''\<rparr>
     = (Some 4294967295, \<lparr>i_good = True, i_bytes = '']''\<rparr>)"
  by (simp_all add: get_uint_def split_sign_def is_space_def is_digit_def digits_value_def
      digit_value_def)

lemma get_char_delim:
  assumes "i_good inp" "dropWhile is_space (i_bytes inp) = c # rest"
  shows "get_char inp = (Some c, inp\<lparr>i_bytes := rest\<rparr>)"
  using assms by (simp add: get_char_def)

lemma block_write_bytes:
  assumes "o_good out"
  shows "block_write payload p out =
     Inr (out\<lparr>o_bytes := o_bytes out @ ''['' @ dec_digits (unat (rows p)) @ '' ''
                 @ dec_digits (unat (cols p)) @ '' ]['' @ payload (sparsity_pattern p) @ '']''\<rparr>)"
  using assms
  by (simp add: block_write_def sp_block_write_def put_string_def put_char_def put_uint_def Let_def)


lemma not_space_delims: "\<not> is_space CHR ''[''" "\<not> is_space CHR '']''" "is_space CHR '' ''"
  "\<not> is_digit CHR '' ''"
  by (simp_all add: is_space_def is_digit_def)

lemma block_read_written:
  assumes good: "i_good inp"
    and codec: "parse (payload sp @ CHR '']'' # rest) = Some (sp', CHR '']'' # rest)"
    and bytes: "i_bytes inp = ''['' @ dec_digits (unat r) @ '' '' @ dec_digits (unat c)
                  @ '' ]['' @ payload sp @ '']'' @ rest"
  shows "block_read parse q inp =
     Inr (q\<lparr>rows := r, cols := c, sparsity_pattern := sp'\<rparr>, inp\<lparr>i_bytes := rest\<rparr>)"
proof -
  let ?B5 = "payload sp @ CHR '']'' # rest"
  let ?B4 = "CHR ''['' # ?B5"
  let ?B3 = "CHR '']'' # ?B4"
  let ?B2 = "dec_digits (unat c) @ CHR '' '' # ?B3"
  let ?B1 = "dec_digits (unat r) @ CHR '' '' # ?B2"
  let ?in1 = "inp\<lparr>i_bytes := ?B1\<rparr>"
  let ?in2 = "inp\<lparr>i_bytes := CHR '' '' # ?B2\<rparr>"
  let ?in3 = "inp\<lparr>i_bytes := CHR '' '' # ?B3\<rparr>"
  let ?in4 = "inp\<lparr>i_bytes := ?B4\<rparr>"
  let ?in5 = "inp\<lparr>i_bytes := ?B5\<rparr>"
  let ?in6 = "inp\<lparr>i_bytes := CHR '']'' # rest\<rparr>"
  have s1: "get_char inp = (Some CHR ''['', ?in1)"
    using good bytes by (intro get_char_delim) (simp_all add: not_space_delims)
  have s2: "get_uint ?in1 = (Some r, ?in2)"
    using good get_uint_dec_digits [of ?in1 r "CHR '' ''" ?B2]
    by (simp add: dropWhile_space_dec_digits not_space_delims)
  have s3: "get_uint ?in2 = (Some c, ?in3)"
    using good get_uint_dec_digits [of ?in2 c "CHR '' ''" ?B3]
    by (simp add: dropWhile_space_dec_digits not_space_delims)
  have s4: "get_char ?in3 = (Some CHR '']'', ?in4)"
    using good get_char_delim [of ?in3 "CHR '']''" ?B4]
    by (simp add: not_space_delims)
  have s5: "get_char ?in4 = (Some CHR ''['', ?in5)"
    using good get_char_delim [of ?in4 "CHR ''[''" ?B5]
    by (simp add: not_space_delims)
  have s6: "sp_block_read parse ?in5 = Inr (sp', ?in6)"
    using good codec by (simp add: sp_block_read_def)
  have s7: "get_char ?in6 = (Some CHR '']'', inp\<lparr>i_bytes := rest\<rparr>)"
    using good get_char_delim [of ?in6 "CHR '']''" rest]
    by (simp add: not_space_delims)
  show ?thesis
    using good by (simp add: block_read_def s1 s2 s3 s4 s5 s6 s7)
qed


section \<open>Bulk construction: every path computes the pattern of the nonzero positions\<close>

lemma unat_of_nat_u32: "k < 2 ^ 32 \<Longrightarrow> unat (word_of_nat k :: u32) = k"
  by (simp add: unat_of_nat)

lemma unat_lt_2p32: "unat (w :: u32) < 2 ^ 32"
  using unsigned_less [of w, where 'a = nat] by simp

lemma set_upto_u32: "set (upto_u32 n) = {i. i < n}"
proof (intro set_eqI iffI)
  fix x assume "x \<in> set (upto_u32 n)"
  then obtain k where k: "k < unat n" "x = word_of_nat k"
    by (auto simp: upto_u32_def)
  then have "unat x = k"
    using unat_lt_2p32 [of n] by (simp add: unat_of_nat_u32)
  then show "x \<in> {i. i < n}"
    using k by (simp add: word_less_nat_alt)
next
  fix x assume "x \<in> {i. i < n}"
  then have "unat x < unat n" by (simp add: word_less_nat_alt)
  moreover have "x = word_of_nat (unat x)" by simp
  ultimately show "x \<in> set (upto_u32 n)"
    unfolding upto_u32_def by (metis atLeast0LessThan imageI lessThan_iff set_map set_upt)
qed

lemma distinct_upto_u32: "distinct (upto_u32 n)"
proof -
  have "inj_on (word_of_nat :: nat \<Rightarrow> u32) (set [0..<unat n])"
  proof (rule inj_onI)
    fix a b assume "a \<in> set [0..<unat n]" "b \<in> set [0..<unat n]"
      and eq: "(word_of_nat a :: u32) = word_of_nat b"
    then have "a < 2 ^ 32" "b < 2 ^ 32"
      using unat_lt_2p32 [of n] by simp_all
    then show "a = b"
      using eq unat_of_nat_u32 by metis
  qed
  then show ?thesis
    by (simp add: upto_u32_def distinct_map)
qed

lemma length_upto_u32 [simp]: "length (upto_u32 n) = unat n"
  by (simp add: upto_u32_def)

lemma map_unat_upto_u32: "map unat (upto_u32 n) = [0..<unat n]"
proof -
  have "\<And>k. k \<in> set [0..<unat n] \<Longrightarrow> unat (word_of_nat k :: u32) = k"
    using unat_lt_2p32 [of n] by (simp add: unat_of_nat_u32)
  then have "map (\<lambda>k. unat (word_of_nat k :: u32)) [0..<unat n] = map (\<lambda>k. k) [0..<unat n]"
    by (intro map_cong) simp_all
  then show ?thesis
    by (simp add: upto_u32_def comp_def)
qed

lemma for_each_append:
  "for_each (xs @ ys) body s =
     (case for_each xs body s of Inl e \<Rightarrow> Inl e | Inr s' \<Rightarrow> for_each ys body s')"
  by (induction xs arbitrary: s) (auto split: sum.splits)

lemma for_each_cong:
  "(\<And>x s. x \<in> set xs \<Longrightarrow> f x s = g x s) \<Longrightarrow> for_each xs f s = for_each xs g s"
  by (induction xs arbitrary: s) (auto split: sum.splits)

lemma for_each_map: "for_each (map f xs) body s = for_each xs (\<lambda>x. body (f x)) s"
  by (induction xs arbitrary: s) (auto split: sum.splits)

lemma for_each_map_fun: "for_each (map f xs) body = for_each xs (\<lambda>x. body (f x))"
  by (rule ext) (simp add: for_each_map)

lemma for_each_concat_map:
  "for_each (concat (map f xs)) body s = for_each xs (\<lambda>x. for_each (f x) body) s"
  by (induction xs arbitrary: s) (auto simp: for_each_append split: sum.splits)

lemma for_each_filter:
  "for_each (filter P xs) body s = for_each xs (\<lambda>x s. if P x then body x s else Inr s) s"
  by (induction xs arbitrary: s) (auto split: sum.splits)

lemma for_each_total:
  "(\<And>x s. x \<in> set xs \<Longrightarrow> body x s = Inr (f x s)) \<Longrightarrow> for_each xs body s = Inr (fold f xs s)"
  by (induction xs arbitrary: s) auto

lemma with_chunks_fields [simp]:
  "rows (with_chunks p E) = rows p" "cols (with_chunks p E) = cols p"
  "chunk_size (with_chunks p E) = chunk_size p"
  by (simp_all add: with_chunks_def)

lemma with_chunks_empty [simp]: "with_chunks p {} = p"
  by (simp add: with_chunks_def)

lemma with_chunks_twice: "with_chunks (with_chunks p A) B = with_chunks p (A \<union> B)"
  by (simp add: with_chunks_def Un_assoc image_Un)

lemma add_with_chunks:
  "chunk_size p \<noteq> 0 \<Longrightarrow> i < rows p \<Longrightarrow> j < cols p \<Longrightarrow> add p i j = Inr (with_chunks p {(i, j)})"
  by (simp add: add_def with_chunks_def sp_add_def chunk_of_def)

lemma for_each_add:
  assumes "chunk_size p \<noteq> 0" "\<forall>e \<in> set es. fst e < rows p \<and> snd e < cols p"
  shows "for_each es (\<lambda>e q. add q (fst e) (snd e)) p = Inr (with_chunks p (set es))"
  using assms
proof (induction es arbitrary: p)
  case Nil
  then show ?case by simp
next
  case (Cons e es)
  have "add p (fst e) (snd e) = Inr (with_chunks p {e})"
    using Cons.prems add_with_chunks [of p "fst e" "snd e"] by simp
  moreover have "for_each es (\<lambda>e q. add q (fst e) (snd e)) (with_chunks p {e})
      = Inr (with_chunks (with_chunks p {e}) (set es))"
    using Cons.prems by (intro Cons.IH) simp_all
  ultimately show ?case
    by (simp add: with_chunks_twice)
qed


lemma card_below_u32: "card {i. i < n} = unat n" for n :: u32
  using distinct_card [OF distinct_upto_u32, of n] by (simp add: set_upto_u32)

lemma lines_wf_line:
  assumes "lines_wf m n lines" "row < m"
  shows "distinct (lines ! unat row)" "\<forall>col \<in> set (lines ! unat row). col < n"
    "length (lines ! unat row) < 2 ^ 32"
proof -
  let ?line = "lines ! unat row"
  have "unat row < length lines"
    using assms by (simp add: lines_wf_def word_less_nat_alt)
  then have mem: "?line \<in> set lines" by simp
  then show d: "distinct ?line" and c: "\<forall>col \<in> set ?line. col < n"
    using assms(1) by (auto simp: lines_wf_def)
  have "card (set ?line) \<le> card {i. i < n}"
    using c by (intro card_mono) auto
  then have "length ?line \<le> unat n"
    using d by (simp add: distinct_card card_below_u32)
  then show "length ?line < 2 ^ 32"
    using unat_lt_2p32 [of n] by simp
qed

lemma map_nth_upto_u32:
  assumes "length line < 2 ^ 32"
  shows "map (\<lambda>j. line ! unat j) (upto_u32 (word_of_nat (length line))) = line"
proof -
  have "map (\<lambda>j. line ! unat j) (upto_u32 (word_of_nat (length line)))
      = map ((!) line) (map unat (upto_u32 (word_of_nat (length line))))"
    by (simp add: comp_def)
  also have "\<dots> = map ((!) line) [0..<length line]"
    using assms by (simp add: map_unat_upto_u32 unat_of_nat_u32)
  finally show ?thesis by (simp add: map_nth)
qed

lemma fill_lines_flat:
  assumes "lines_wf m n lines"
  shows "for_each (upto_u32 m)
       (\<lambda>row. for_each (upto_u32 (word_of_nat (length (lines ! unat row))))
                 (\<lambda>j q. add q row (lines ! unat row ! unat j))) p
     = for_each (lines_entries m lines) (\<lambda>e q. add q (fst e) (snd e)) p"
proof -
  have inner: "for_each (upto_u32 (word_of_nat (length (lines ! unat row))))
                 (\<lambda>j q. add q row (lines ! unat row ! unat j)) s
      = for_each (map (Pair row) (lines ! unat row)) (\<lambda>e q. add q (fst e) (snd e)) s"
    if "row \<in> set (upto_u32 m)" for row s
  proof -
    let ?line = "lines ! unat row"
    from that have "row < m" by (simp add: set_upto_u32)
    then have len: "length ?line < 2 ^ 32"
      using lines_wf_line(3) [OF assms] by simp
    have "for_each (upto_u32 (word_of_nat (length ?line))) (\<lambda>j q. add q row (?line ! unat j)) s
        = for_each (map (\<lambda>j. ?line ! unat j) (upto_u32 (word_of_nat (length ?line))))
            (\<lambda>col q. add q row col) s"
      by (simp add: for_each_map)
    also have "\<dots> = for_each ?line (\<lambda>col q. add q row col) s"
      by (simp only: map_nth_upto_u32 [OF len])
    finally show ?thesis by (simp add: for_each_map)
  qed
  show ?thesis
    unfolding lines_entries_def for_each_concat_map
    by (rule for_each_cong) (rule inner)
qed

lemma fill_csp_flat:
  "csp_wf csp \<Longrightarrow> fill_csp csp p = for_each (csp_entries csp) (\<lambda>e q. add q (fst e) (snd e)) p"
  using fill_lines_flat [of "csp_n_rows csp" "csp_n_cols csp" "csp_lines csp" p]
  by (simp add: fill_csp_def csp_entries_def csp_wf_def csp_row_length_def csp_column_number_def)

lemma fill_cset_flat:
  "fill_cset s p = for_each (cset_entries s) (\<lambda>e q. add q (fst e) (snd e)) p"
  by (simp add: fill_cset_def cset_entries_def lines_entries_def for_each_concat_map
      for_each_map_fun cset_row_def)

lemma fm_index:
  assumes "fm_wf M" "row < dim_image M" "col < dim_range M"
  shows "unat (row * dim_range M + col) = unat row * unat (dim_range M) + unat col"
    and "unat (row * dim_range M + col) < length (val M)"
proof -
  let ?m = "unat (dim_image M)" and ?n = "unat (dim_range M)"
  have r: "unat row < ?m" and c: "unat col < ?n"
    using assms(2,3) by (simp_all add: word_less_nat_alt)
  have "unat row * ?n + unat col < Suc (unat row) * ?n"
    using c by simp
  also have "\<dots> \<le> ?m * ?n"
    using r by (intro mult_le_mono1) simp
  finally have lt: "unat row * ?n + unat col < ?m * ?n" .
  then have b: "unat row * ?n + unat col < 2 ^ 32" and b': "unat row * ?n + unat col < length (val M)"
    using assms(1) by (simp_all add: fm_wf_def)
  have "unat row * ?n < 2 ^ 32" using b by simp
  then have "unat (row * dim_range M) = unat row * ?n"
    using unat_mult_lem [of row "dim_range M"] by simp
  then show "unat (row * dim_range M + col) = unat row * ?n + unat col"
    using b unat_add_lem [of "row * dim_range M" col] by simp
  then show "unat (row * dim_range M + col) < length (val M)"
    using b' by simp
qed

lemma fm_at_in_range:
  assumes "fm_wf M" "row < dim_image M" "col < dim_range M"
  shows "fm_at M row col = Inr (val M ! unat (row * dim_range M + col))"
  using assms fm_index(2) [OF assms] by (simp add: fm_at_def el_def Let_def)

lemma fill_fm_flat:
  assumes "fm_wf M"
  shows "fill_fm M p = for_each (fm_entries M) (\<lambda>e q. add q (fst e) (snd e)) p"
proof -
  have inner: "for_each (upto_u32 (fm_n M))
                 (\<lambda>col q. case fm_at M row col of
                              Inl e \<Rightarrow> Inl e
                            | Inr v \<Rightarrow> if v \<noteq> 0 then add q row col else Inr q) s
      = for_each (map (Pair row) (filter (fm_nonzero M row) (upto_u32 (dim_range M))))
          (\<lambda>e q. add q (fst e) (snd e)) s"
    if "row \<in> set (upto_u32 (fm_m M))" for row s
  proof -
    from that have row: "row < dim_image M" by (simp add: set_upto_u32 fm_m_def)
    have "for_each (upto_u32 (fm_n M))
                 (\<lambda>col q. case fm_at M row col of
                              Inl e \<Rightarrow> Inl e
                            | Inr v \<Rightarrow> if v \<noteq> 0 then add q row col else Inr q) s
        = for_each (upto_u32 (dim_range M))
            (\<lambda>col q. if fm_nonzero M row col then add q row col else Inr q) s"
      unfolding fm_n_def
      by (rule for_each_cong)
        (simp add: set_upto_u32 fm_at_in_range [OF assms row] fm_nonzero_def)
    then show ?thesis
      by (simp add: for_each_map for_each_filter)
  qed
  show ?thesis
    unfolding fm_entries_def fill_fm_def for_each_concat_map fm_m_def [symmetric]
    by (rule for_each_cong) (rule inner)
qed


lemma fold_const: "fold (\<lambda>_. f) xs = f ^^ length xs"
  by (induction xs) (simp_all add: funpow_swap1)

lemma fold_concat_map: "fold g (concat (map h xs)) = fold (\<lambda>x. fold g (h x)) xs"
  by (induction xs) simp_all

lemma incr_fold_nth:
  assumes "\<forall>e \<in> set es. unat (fst e) < length epr"
  shows "length (fold (\<lambda>e. incr_row (fst e)) es epr) = length epr
     \<and> (\<forall>k<length epr. fold (\<lambda>e. incr_row (fst e)) es epr ! k
           = epr ! k + word_of_nat (length (filter (\<lambda>e. unat (fst e) = k) es)))"
  using assms
proof (induction es arbitrary: epr)
  case Nil
  then show ?case by simp
next
  case (Cons e es)
  let ?epr = "incr_row (fst e) epr"
  have len: "length ?epr = length epr" by (simp add: incr_row_def)
  have e: "unat (fst e) < length epr" using Cons.prems by simp
  have ih: "length (fold (\<lambda>e. incr_row (fst e)) es ?epr) = length epr
     \<and> (\<forall>k<length epr. fold (\<lambda>e. incr_row (fst e)) es ?epr ! k
           = ?epr ! k + word_of_nat (length (filter (\<lambda>e. unat (fst e) = k) es)))"
    using Cons.IH [of ?epr] Cons.prems len by simp
  have nth: "?epr ! k = (if unat (fst e) = k then epr ! k + 1 else epr ! k)"
    if "k < length epr" for k
    using that by (auto simp: incr_row_def)
  show ?case
    using ih nth by (auto simp: add.assoc)
qed

lemma set_row_entries:
  "set (concat (map (\<lambda>row. map (Pair row) (f row)) rs)) = {(row, col). row \<in> set rs \<and> col \<in> set (f row)}"
  by auto

lemma distinct_row_entries:
  assumes "distinct rs" "\<forall>row \<in> set rs. distinct (f row)"
  shows "distinct (concat (map (\<lambda>row. map (Pair row) (f row)) rs))"
  using assms
proof (induction rs)
  case Nil
  then show ?case by simp
next
  case (Cons r rs)
  have "distinct (map (Pair r) (f r))"
    using Cons.prems by (simp add: distinct_map inj_on_def)
  moreover have "set (map (Pair r) (f r)) \<inter> set (concat (map (\<lambda>row. map (Pair row) (f row)) rs)) = {}"
    using Cons.prems by (auto simp: set_row_entries)
  ultimately show ?case
    using Cons by simp
qed

lemma row_count_alt: "row_count E row = word_of_nat (card {col. (row, col) \<in> E})"
proof -
  have "snd ` Set.filter (\<lambda>e. fst e = row) E = {col. (row, col) \<in> E}"
    by (auto simp: image_iff)
  then show ?thesis by (simp add: row_count_def)
qed

lemma count_entries:
  assumes "distinct es" "\<forall>e \<in> set es. fst e < m"
  shows "fold (\<lambda>e. incr_row (fst e)) es (replicate (unat m) 0) = map (row_count (set es)) (upto_u32 m)"
proof (rule nth_equalityI)
  let ?res = "fold (\<lambda>e. incr_row (fst e)) es (replicate (unat m) 0)"
  have rng: "\<forall>e \<in> set es. unat (fst e) < length (replicate (unat m) (0::u32))"
    using assms(2) by (simp add: word_less_nat_alt)
  note F = incr_fold_nth [OF rng]
  show "length ?res = length (map (row_count (set es)) (upto_u32 m))"
    using F by simp
  fix k assume "k < length ?res"
  then have k: "k < unat m" using F by simp
  then have k32: "k < 2 ^ 32" using unat_lt_2p32 [of m] by simp
  have "?res ! k = word_of_nat (length (filter (\<lambda>e. unat (fst e) = k) es))"
    using F k by simp
  also have "length (filter (\<lambda>e. unat (fst e) = k) es) = card ({e. unat (fst e) = k} \<inter> set es)"
    using assms(1) by (rule distinct_length_filter)
  also have "{e. unat (fst e) = k} \<inter> set es
      = Pair (word_of_nat k) ` {col. (word_of_nat k, col) \<in> set es}"
  proof -
    have "unat (fst e) = k \<longleftrightarrow> fst e = word_of_nat k" for e :: "u32 \<times> u32"
      using k32 by (auto simp: unat_of_nat_u32)
    then show ?thesis by (auto simp: image_iff)
  qed
  also have "card (Pair (word_of_nat k :: u32) ` {col. (word_of_nat k, col) \<in> set es})
      = card {col. (word_of_nat k, col) \<in> set es}"
    by (intro card_image) (simp add: inj_on_def)
  finally show "?res ! k = map (row_count (set es)) (upto_u32 m) ! k"
    using k by (simp add: row_count_alt upto_u32_def)
qed


lemma count_lines_flat:
  assumes "lines_wf m n lines"
  shows "fold (\<lambda>row epr. fold (\<lambda>j. incr_row row)
                 (upto_u32 (word_of_nat (length (lines ! unat row)))) epr) (upto_u32 m) s
     = fold (\<lambda>e. incr_row (fst e)) (lines_entries m lines) s"
proof -
  have inner: "(\<lambda>epr. fold (\<lambda>j. incr_row row)
                 (upto_u32 (word_of_nat (length (lines ! unat row)))) epr)
      = fold (\<lambda>e. incr_row (fst e)) (map (Pair row) (lines ! unat row))"
    if "row \<in> set (upto_u32 m)" for row
  proof -
    from that have "row < m" by (simp add: set_upto_u32)
    then have "length (lines ! unat row) < 2 ^ 32"
      using lines_wf_line(3) [OF assms] by simp
    then show ?thesis
      by (simp add: fold_map comp_def fold_const unat_of_nat_u32)
  qed
  show ?thesis
    unfolding lines_entries_def fold_concat_map
    by (rule fold_cong) (simp_all add: inner)
qed

lemma entries_per_row_csp_flat:
  "csp_wf csp \<Longrightarrow> entries_per_row_csp csp
     = fold (\<lambda>e. incr_row (fst e)) (csp_entries csp) (replicate (unat (csp_n_rows csp)) 0)"
  using count_lines_flat [of "csp_n_rows csp" "csp_n_cols csp" "csp_lines csp"]
  by (simp add: entries_per_row_csp_def csp_entries_def csp_wf_def csp_row_length_def)

lemma entries_per_row_cset_flat:
  "entries_per_row_cset s
     = fold (\<lambda>e. incr_row (fst e)) (cset_entries s) (replicate (unat (cset_n_rows s)) 0)"
  by (simp add: entries_per_row_cset_def cset_entries_def lines_entries_def fold_concat_map
      fold_map comp_def cset_row_def)

lemma entries_per_row_fm_flat:
  assumes "fm_wf M"
  shows "entries_per_row_fm M
     = Inr (fold (\<lambda>e. incr_row (fst e)) (fm_entries M) (replicate (unat (dim_image M)) 0))"
proof -
  let ?F = "\<lambda>row. fold (\<lambda>e. incr_row (fst e))
      (map (Pair row) (filter (fm_nonzero M row) (upto_u32 (dim_range M))))"
  have inner: "for_each (upto_u32 (fm_n M))
                 (\<lambda>col epr. case fm_at M row col of
                                Inl e \<Rightarrow> Inl e
                              | Inr v \<Rightarrow> Inr (if v \<noteq> 0 then incr_row row epr else epr)) s
      = Inr (?F row s)"
    if "row \<in> set (upto_u32 (fm_m M))" for row s
  proof -
    from that have row: "row < dim_image M" by (simp add: set_upto_u32 fm_m_def)
    have "for_each (upto_u32 (fm_n M))
                 (\<lambda>col epr. case fm_at M row col of
                                Inl e \<Rightarrow> Inl e
                              | Inr v \<Rightarrow> Inr (if v \<noteq> 0 then incr_row row epr else epr)) s
        = Inr (fold (\<lambda>col. if fm_nonzero M row col then incr_row row else id)
                 (upto_u32 (dim_range M)) s)"
      unfolding fm_n_def
      by (rule for_each_total)
        (simp add: set_upto_u32 fm_at_in_range [OF assms row] fm_nonzero_def)
    then show ?thesis
      by (simp add: fold_map comp_def fold_filter)
  qed
  have "entries_per_row_fm M = Inr (fold ?F (upto_u32 (fm_m M)) (replicate (unat (fm_m M)) 0))"
    unfolding entries_per_row_fm_def
    by (rule for_each_total) (rule inner)
  then show ?thesis
    by (simp add: fm_entries_def fold_concat_map fm_m_def)
qed

lemma lines_entries_props:
  assumes "lines_wf m n lines"
  shows "distinct (lines_entries m lines)"
    and "\<forall>e \<in> set (lines_entries m lines). fst e < m \<and> snd e < n"
proof -
  show "distinct (lines_entries m lines)"
    unfolding lines_entries_def
    using lines_wf_line(1) [OF assms]
    by (intro distinct_row_entries) (simp_all add: distinct_upto_u32 set_upto_u32)
  show "\<forall>e \<in> set (lines_entries m lines). fst e < m \<and> snd e < n"
    unfolding lines_entries_def set_row_entries
    using lines_wf_line(2) [OF assms] by (auto simp: set_upto_u32)
qed

lemma fm_entries_props:
  shows "distinct (fm_entries M)"
    and "\<forall>e \<in> set (fm_entries M). fst e < dim_image M \<and> snd e < dim_range M"
proof -
  show "distinct (fm_entries M)"
    unfolding fm_entries_def
    by (intro distinct_row_entries) (simp_all add: distinct_upto_u32)
  show "\<forall>e \<in> set (fm_entries M). fst e < dim_image M \<and> snd e < dim_range M"
    unfolding fm_entries_def set_row_entries
    by (auto simp: set_upto_u32)
qed

lemma fill_after_reinit:
  assumes "reinit m n row_lengths c od = Inr p" "\<forall>e \<in> set es. fst e < m \<and> snd e < n"
  shows "for_each es (\<lambda>e q. add q (fst e) (snd e)) p = Inr (with_chunks p (set es))"
  using assms reinit_Inr_fields(1-4) [OF assms(1)]
  by (intro for_each_add) simp_all

lemma build_from_entries:
  assumes "distinct es" "\<forall>e \<in> set es. fst e < m \<and> snd e < n"
  shows "(case reinit m n (fold (\<lambda>e. incr_row (fst e)) es (replicate (unat m) 0)) c od of
            Inl e \<Rightarrow> Inl e
          | Inr p \<Rightarrow> (case for_each es (\<lambda>e q. add q (fst e) (snd e)) p of
                        Inl e \<Rightarrow> Inl e | Inr q \<Rightarrow> Inr (compress q)))
     = pattern_of_entries m n (set es) c od"
proof -
  have cnt: "fold (\<lambda>e. incr_row (fst e)) es (replicate (unat m) 0) = map (row_count (set es)) (upto_u32 m)"
    using assms by (intro count_entries) simp_all
  show ?thesis
    unfolding cnt pattern_of_entries_def
    by (cases "reinit m n (map (row_count (set es)) (upto_u32 m)) c od")
      (simp_all add: fill_after_reinit [OF _ assms(2)])
qed

lemma copy_from_csp_canonical:
  assumes "csp_wf csp"
  shows "copy_from_csp csp c od
     = pattern_of_entries (csp_n_rows csp) (csp_n_cols csp) (set (csp_entries csp)) c od"
proof -
  have wf: "lines_wf (csp_n_rows csp) (csp_n_cols csp) (csp_lines csp)"
    using assms by (simp add: csp_wf_def)
  show ?thesis
    unfolding copy_from_csp_def entries_per_row_csp_flat [OF assms] fill_csp_flat [OF assms]
      csp_entries_def
    by (rule build_from_entries [OF lines_entries_props [OF wf]])
qed

lemma copy_from_cset_canonical:
  assumes "cset_wf s"
  shows "copy_from_cset s c od
     = pattern_of_entries (cset_n_rows s) (cset_n_cols s) (set (cset_entries s)) c od"
proof -
  have wf: "lines_wf (cset_n_rows s) (cset_n_cols s) (cset_lines s)"
    using assms by (simp add: cset_wf_def)
  show ?thesis
    unfolding copy_from_cset_def entries_per_row_cset_flat fill_cset_flat cset_entries_def
    by (rule build_from_entries [OF lines_entries_props [OF wf]])
qed

lemma copy_from_fm_canonical:
  assumes "fm_wf M"
  shows "copy_from_fm M c od
     = pattern_of_entries (dim_image M) (dim_range M) (set (fm_entries M)) c od"
  unfolding copy_from_fm_def entries_per_row_fm_flat [OF assms] fill_fm_flat [OF assms]
    fm_m_def fm_n_def sum.case
  by (rule build_from_entries [OF fm_entries_props])

lemma build_explicit_canonical:
  assumes "row_lengths = map (row_count (set insertions)) (upto_u32 m)"
    and "\<forall>e \<in> set insertions. fst e < m \<and> snd e < n"
  shows "build_explicit m n row_lengths c od insertions
     = pattern_of_entries m n (set insertions) c od"
  unfolding build_explicit_def pattern_of_entries_def assms(1)
  by (cases "reinit m n (map (row_count (set insertions)) (upto_u32 m)) c od")
    (simp_all add: fill_after_reinit [OF _ assms(2)])


lemma pattern_of_entries_total:
  assumes "c \<noteq> 0" "unat m + unat c < 2 ^ 32"
  shows "\<exists>p. pattern_of_entries m n E c od = Inr p"
proof -
  have "length (map (row_count E) (upto_u32 m)) = unat m" by simp
  from reinit_total [OF this assms, of n od]
  show ?thesis by (auto simp: pattern_of_entries_def)
qed

lemma pattern_of_entries_exists:
  assumes "pattern_of_entries m n E c od = Inr p" "i < m" "j < n"
  shows "exists p i j = Inr ((i div c, j div c) \<in> chunk_of c ` E)"
proof -
  obtain p0 where r: "reinit m n (map (row_count E) (upto_u32 m)) c od = Inr p0"
    and p: "p = compress (with_chunks p0 E)"
    using assms(1) by (auto simp: pattern_of_entries_def split: sum.splits)
  show ?thesis
    using assms(2,3) reinit_Inr_fields(1-4,8) [OF r]
    by (simp add: p exists_def compress_def with_chunks_def sp_compress_def sp_exists_def)
qed

lemma pattern_of_entries_fields:
  assumes "pattern_of_entries m n E c od = Inr p"
  shows "rows p = m" "cols p = n" "chunk_size p = c"
    "sp_entries (sparsity_pattern p) = chunk_of c ` E"
proof -
  obtain p0 where r: "reinit m n (map (row_count E) (upto_u32 m)) c od = Inr p0"
    and p: "p = compress (with_chunks p0 E)"
    using assms by (auto simp: pattern_of_entries_def split: sum.splits)
  show "rows p = m" "cols p = n" "chunk_size p = c"
    "sp_entries (sparsity_pattern p) = chunk_of c ` E"
    using reinit_Inr_fields(1-3,8) [OF r]
    by (simp_all add: p compress_def with_chunks_def sp_compress_def)
qed

lemma build_explicit_fields:
  assumes "build_explicit m n row_lengths c od insertions = Inr p"
    and "\<forall>e \<in> set insertions. fst e < m \<and> snd e < n"
  shows "rows p = m" "cols p = n" "chunk_size p = c"
    "sp_entries (sparsity_pattern p) = chunk_of c ` set insertions"
proof -
  obtain p0 where r: "reinit m n row_lengths c od = Inr p0"
    and f: "map_sum id compress (for_each insertions (\<lambda>e q. add q (fst e) (snd e)) p0) = Inr p"
    using assms(1) by (auto simp: build_explicit_def split: sum.splits)
  have p: "p = compress (with_chunks p0 (set insertions))"
    using f fill_after_reinit [OF r assms(2)] by simp
  show "rows p = m" "cols p = n" "chunk_size p = c"
    "sp_entries (sparsity_pattern p) = chunk_of c ` set insertions"
    using reinit_Inr_fields(1-3,8) [OF r]
    by (simp_all add: p compress_def with_chunks_def sp_compress_def)
qed

lemma exists_same_entries:
  assumes "rows p = rows q" "cols p = cols q" "chunk_size p = chunk_size q"
    "sp_entries (sparsity_pattern p) = sp_entries (sparsity_pattern q)"
  shows "exists p i j = exists q i j"
  using assms by (simp add: exists_def sp_exists_def)

section \<open>Patterns built without wrap-around\<close>

lemma built_inv_reinit:
  assumes "reinit m n row_lengths c od = Inr p"
    "unat m + unat c < 2 ^ 32" "unat n + unat c < 2 ^ 32"
  shows "built_inv p"
  using assms(2,3) reinit_Inr_fields(1-4,8) [OF assms(1)] by (simp add: built_inv_def)

lemma built_inv_add:
  assumes "built_inv p" "add p i j = Inr q"
  shows "built_inv q"
proof -
  let ?c = "chunk_size p"
  from assms have c: "?c \<noteq> 0" and i: "i < rows p" and j: "j < cols p"
    and q: "q = p\<lparr>sparsity_pattern := sp_add (sparsity_pattern p) (i div ?c) (j div ?c)\<rparr>"
    by (auto simp: built_inv_def add_def split: if_splits)
  have "unat (i div ?c) * unat ?c \<le> unat i" "unat (j div ?c) * unat ?c \<le> unat j"
    by (simp_all add: unat_div)
  then have "unat (i div ?c) * unat ?c < unat (rows p)" "unat (j div ?c) * unat ?c < unat (cols p)"
    using i j by (simp_all add: word_less_nat_alt)
  then show ?thesis
    using assms(1) by (auto simp: q built_inv_def sp_add_def)
qed

lemma built_inv_compress: "built_inv p \<Longrightarrow> built_inv (compress p)"
  by (simp add: built_inv_def compress_def sp_compress_def)

lemma unat_index_distance: "unat (index_distance e) \<le> max (unat (fst e)) (unat (snd e))"
  by (auto simp: index_distance_def unat_sub word_le_nat_alt)

lemma built_inv_no_wrap:
  assumes "built_inv p"
  shows "unat (sp_bandwidth (sparsity_pattern p)) * unat (chunk_size p)
           + (unat (chunk_size p) - 1) < 2 ^ 32"
proof (cases "sp_entries (sparsity_pattern p) = {}")
  case True
  have "unat (chunk_size p) - 1 < 2 ^ 32"
    using assms by (auto simp: built_inv_def)
  then show ?thesis
    using True by (simp add: sp_bandwidth_def)
next
  case False
  let ?E = "sp_entries (sparsity_pattern p)" and ?c = "unat (chunk_size p)"
  have "Max (index_distance ` ?E) \<in> index_distance ` ?E"
    using False by (intro Max_in) simp_all
  then obtain e where e1: "e \<in> ?E" and mx: "Max (index_distance ` ?E) = index_distance e"
    by (elim imageE) simp
  have e: "e \<in> ?E" "sp_bandwidth (sparsity_pattern p) = index_distance e"
    using e1 mx False by (simp_all add: sp_bandwidth_def)
  have "unat (index_distance e) * ?c \<le> max (unat (fst e)) (unat (snd e)) * ?c"
    using unat_index_distance [of e] by (intro mult_le_mono1)
  also have "\<dots> = max (unat (fst e) * ?c) (unat (snd e) * ?c)"
    by (simp add: max_def)
  also have "\<dots> < max (unat (rows p)) (unat (cols p))"
    using assms e(1) by (auto simp: built_inv_def)
  finally have "unat (index_distance e) * ?c + (?c - 1) < max (unat (rows p)) (unat (cols p)) + ?c"
    by simp
  also have "\<dots> < 2 ^ 32"
    using assms by (auto simp: built_inv_def)
  finally show ?thesis by (simp add: e(2))
qed

lemma bandwidth_unat:
  assumes "chunk_size p \<noteq> 0"
    and "unat (sp_bandwidth (sparsity_pattern p)) * unat (chunk_size p)
           + (unat (chunk_size p) - 1) < 2 ^ 32"
  shows "unat (bandwidth p) =
      min (unat (sp_bandwidth (sparsity_pattern p)) * unat (chunk_size p)
             + (unat (chunk_size p) - 1))
          (max (unat (rows p)) (unat (cols p)))"
proof -
  let ?b = "sp_bandwidth (sparsity_pattern p)" and ?c = "chunk_size p"
  have c1: "unat (?c - 1) = unat ?c - 1"
    using assms(1) by (simp add: unat_minus_one)
  have bc: "unat (?b * ?c) = unat ?b * unat ?c"
    using assms(2) by (simp add: unat_mult_lem [THEN iffD1])
  have "unat (?b * ?c + (?c - 1)) = unat (?b * ?c) + unat (?c - 1)"
    using assms(2) c1 bc by (simp add: unat_add_lem [THEN iffD1])
  then have s: "unat (?b * ?c + (?c - 1)) = unat ?b * unat ?c + (unat ?c - 1)"
    using c1 bc by simp
  show ?thesis
    unfolding bandwidth_def n_rows_def n_cols_def
    by (simp add: unat_min unat_max s)
qed

section \<open>The properties of the specification\<close>

text \<open>
  C1. The spec has \<^verbatim>\<open>block_read\<close>, applied to the bytes of \<^verbatim>\<open>block_write\<close>, reproduce the
  rows, the columns, the chunk size and every answer of \<^verbatim>\<open>exists\<close>. The code neither
  writes nor reads the chunk size. \<open>demo_written\<close> is a 4 by 4
  pattern with chunk size 2, built by \<^verbatim>\<open>reinit\<close>, \<^verbatim>\<open>add (0, 0)\<close> and \<^verbatim>\<open>compress\<close>; read
  into \<open>demo_reader\<close>, a fresh 4 by 4 pattern with chunk size 1, its bytes give a pattern
  with chunk size 1 in which \<open>exists (1, 1)\<close> is false, while it is true in the pattern
  written.
\<close>

theorem block_read_keeps_reader_chunk_size:
  "(case reinit_uniform 4 4 1 2 False of
      Inl e \<Rightarrow> Inl e | Inr p \<Rightarrow> map_sum id compress (add p 0 0)) = Inr demo_written
   \<and> reinit_uniform 4 4 1 1 False = Inr demo_reader
   \<and> block_write demo_payload demo_written \<lparr>o_good = True, o_bytes = []\<rparr>
       = Inr \<lparr>o_good = True, o_bytes = ''[4 4 ][x]''\<rparr>
   \<and> block_read demo_parse demo_reader \<lparr>i_good = True, i_bytes = ''[4 4 ][x]''\<rparr>
       = Inr (demo_reader\<lparr>sparsity_pattern := demo_coarse\<rparr>, \<lparr>i_good = True, i_bytes = []\<rparr>)
   \<and> chunk_size (demo_reader\<lparr>sparsity_pattern := demo_coarse\<rparr>) \<noteq> chunk_size demo_written
   \<and> exists demo_written 1 1 = Inr True
   \<and> exists (demo_reader\<lparr>sparsity_pattern := demo_coarse\<rparr>) 1 1 = Inr False"
proof -
  have built: "(case reinit_uniform 4 4 1 2 False of
      Inl e \<Rightarrow> Inl e | Inr p \<Rightarrow> map_sum id compress (add p 0 0)) = Inr demo_written"
    by code_simp
  have reader: "reinit_uniform 4 4 1 1 False = Inr demo_reader"
    by code_simp
  have d: "dec_digits 4 = ''4''"
    by (simp add: dec_digits.simps digit_char_def)
  have wr: "block_write demo_payload demo_written \<lparr>o_good = True, o_bytes = []\<rparr>
       = Inr \<lparr>o_good = True, o_bytes = ''[4 4 ][x]''\<rparr>"
    by (simp add: block_write_def sp_block_write_def put_string_def put_char_def put_uint_def
        demo_payload_def demo_written_def d)
  have rd: "block_read demo_parse demo_reader \<lparr>i_good = True, i_bytes = ''[4 4 ][x]''\<rparr>
       = Inr (demo_reader\<lparr>sparsity_pattern := demo_coarse\<rparr>, \<lparr>i_good = True, i_bytes = []\<rparr>)"
    by (simp add: block_read_def get_char_def get_uint_def split_sign_def sp_block_read_def
        is_space_def is_digit_def digits_value_def digit_value_def demo_parse_def demo_reader_def)
  have ex: "chunk_size (demo_reader\<lparr>sparsity_pattern := demo_coarse\<rparr>) \<noteq> chunk_size demo_written
     \<and> exists demo_written 1 1 = Inr True
     \<and> exists (demo_reader\<lparr>sparsity_pattern := demo_coarse\<rparr>) 1 1 = Inr False"
    by (simp add: exists_def sp_exists_def demo_reader_def demo_written_def demo_coarse_def)
  show ?thesis
    using built reader wr rd ex by blast
qed

text \<open>
  C1, amended. Let \<open>inp\<close> hold the bytes \<^verbatim>\<open>block_write\<close> appended for \<open>P\<close>, and let the
  reader of the coarse structure return the structure written. Then \<^verbatim>\<open>block_read\<close> on any
  pattern \<open>Q\<close> succeeds, consumes exactly these bytes, and leaves \<open>Q\<close> with the rows, the
  columns and the coarse structure of \<open>P\<close> and with its own chunk size. If \<open>Q\<close> had the
  chunk size of \<open>P\<close>, the result is \<open>P\<close>, and \<^verbatim>\<open>exists\<close> answers alike on both.
\<close>

theorem block_read_block_write:
  assumes "block_write payload P out = Inr out'"
    and "i_good inp"
    and "i_bytes inp = drop (length (o_bytes out)) (o_bytes out') @ rest"
    and "\<forall>tail. parse (payload (sparsity_pattern P) @ tail) = Some (sparsity_pattern P, tail)"
  shows "block_read parse Q inp =
           Inr (Q\<lparr>rows := rows P, cols := cols P, sparsity_pattern := sparsity_pattern P\<rparr>,
                inp\<lparr>i_bytes := rest\<rparr>)
     \<and> (chunk_size Q = chunk_size P \<longrightarrow>
          Q\<lparr>rows := rows P, cols := cols P, sparsity_pattern := sparsity_pattern P\<rparr> = P
          \<and> (\<forall>i j. exists (Q\<lparr>rows := rows P, cols := cols P,
                               sparsity_pattern := sparsity_pattern P\<rparr>) i j = exists P i j))"
proof -
  have g: "o_good out"
    using assms(1) by (auto simp: block_write_def split: if_splits)
  have "out' = out\<lparr>o_bytes := o_bytes out @ ''['' @ dec_digits (unat (rows P)) @ '' ''
                 @ dec_digits (unat (cols P)) @ '' ]['' @ payload (sparsity_pattern P) @ '']''\<rparr>"
    using assms(1) block_write_bytes [OF g, of payload P] by simp
  then have bytes: "i_bytes inp = ''['' @ dec_digits (unat (rows P)) @ '' ''
                 @ dec_digits (unat (cols P)) @ '' ]['' @ payload (sparsity_pattern P) @ '']'' @ rest"
    using assms(3) by simp
  have codec: "parse (payload (sparsity_pattern P) @ CHR '']'' # rest)
      = Some (sparsity_pattern P, CHR '']'' # rest)"
    using assms(4) by blast
  have rd: "block_read parse Q inp =
           Inr (Q\<lparr>rows := rows P, cols := cols P, sparsity_pattern := sparsity_pattern P\<rparr>,
                inp\<lparr>i_bytes := rest\<rparr>)"
    using block_read_written
        [where payload = payload and sp = "sparsity_pattern P" and parse = parse
          and inp = inp and rest = rest and sp' = "sparsity_pattern P"
          and r = "rows P" and c = "cols P" and q = Q]
      assms(2) codec bytes
    by blast
  have eq: "chunk_size Q = chunk_size P \<Longrightarrow>
      Q\<lparr>rows := rows P, cols := cols P, sparsity_pattern := sparsity_pattern P\<rparr> = P"
    by simp
  have ex: "chunk_size Q = chunk_size P \<Longrightarrow>
      exists (Q\<lparr>rows := rows P, cols := cols P, sparsity_pattern := sparsity_pattern P\<rparr>) i j
        = exists P i j" for i j
    by (simp add: exists_def)
  show ?thesis using rd eq ex by blast
qed

text \<open>
  The pattern \<open>demo_written\<close> read back into a fresh 4 by 4 pattern of the same chunk
  size 2, with three bytes left behind it in the input.
\<close>

theorem block_read_block_write_witness:
  "block_write demo_payload demo_written \<lparr>o_good = True, o_bytes = ''#''\<rparr>
       = Inr \<lparr>o_good = True, o_bytes = ''#[4 4 ][x]''\<rparr>
   \<and> reinit_uniform 4 4 1 2 False = Inr (demo_written\<lparr>sparsity_pattern := sp_reinit 3 3 [1, 1, 0] False\<rparr>)
   \<and> block_read demo_parse (demo_written\<lparr>sparsity_pattern := sp_reinit 3 3 [1, 1, 0] False\<rparr>)
        \<lparr>i_good = True, i_bytes = ''[4 4 ][x]end''\<rparr>
       = Inr (demo_written, \<lparr>i_good = True, i_bytes = ''end''\<rparr>)
   \<and> exists demo_written 1 1 = Inr True"
proof -
  let ?out = "\<lparr>o_good = True, o_bytes = ''#''\<rparr>"
  let ?out' = "\<lparr>o_good = True, o_bytes = ''#[4 4 ][x]''\<rparr>"
  let ?inp = "\<lparr>i_good = True, i_bytes = ''[4 4 ][x]end''\<rparr>"
  let ?Q = "demo_written\<lparr>sparsity_pattern := sp_reinit 3 3 [1, 1, 0] False\<rparr>"
  have d: "dec_digits 4 = ''4''"
    by (simp add: dec_digits.simps digit_char_def)
  have w: "block_write demo_payload demo_written ?out = Inr ?out'"
    by (simp add: block_write_def sp_block_write_def put_string_def put_char_def put_uint_def
        demo_payload_def demo_written_def d)
  have q: "reinit_uniform 4 4 1 2 False = Inr ?Q"
    unfolding demo_written_def by code_simp
  have g: "i_good ?inp" by simp
  have b: "i_bytes ?inp = drop (length (o_bytes ?out)) (o_bytes ?out') @ ''end''"
    by simp
  have c: "\<forall>tail. demo_parse (demo_payload (sparsity_pattern demo_written) @ tail)
      = Some (sparsity_pattern demo_written, tail)"
    by (simp add: demo_parse_def demo_payload_def demo_written_def)
  have s: "chunk_size ?Q = chunk_size demo_written" by simp
  have e: "exists demo_written 1 1 = Inr True"
    by (simp add: exists_def sp_exists_def demo_written_def demo_coarse_def)
  from block_read_block_write [OF w g b c, of ?Q] s w q e show ?thesis
    by simp
qed

text \<open>
  C2. The spec gives the format as \<open>[\<close>, decimal rows, one space, decimal cols, \<open>]\<close>, \<open>[\<close>,
  payload, \<open>]\<close>. The code writes a second space, after the columns: for a 2 by 3 pattern
  and the payload \<open>x\<close> it emits \<open>[2 3 ][x]\<close>, not \<open>[2 3][x]\<close>.
\<close>

theorem block_write_differs_from_spec_format:
  "block_write (\<lambda>sp. ''x'')
        \<lparr>rows = 2, cols = 3, chunk_size = 1, sparsity_pattern = sp_reinit 3 4 [0, 0] False\<rparr>
        \<lparr>o_good = True, o_bytes = []\<rparr> = Inr \<lparr>o_good = True, o_bytes = ''[2 3 ][x]''\<rparr>
   \<and> spec_block_format (\<lambda>sp. ''x'')
        \<lparr>rows = 2, cols = 3, chunk_size = 1, sparsity_pattern = sp_reinit 3 4 [0, 0] False\<rparr>
      = ''[2 3][x]''
   \<and> ''[2 3 ][x]'' \<noteq> ''[2 3][x]''"
  by (simp add: block_write_def sp_block_write_def put_string_def put_char_def put_uint_def
      spec_block_format_def dec_digits.simps digit_char_def)

text \<open>
  C2, amended. On a stream that is in good state \<^verbatim>\<open>block_write\<close> appends exactly: \<open>[\<close>, the
  decimal digits of rows, one space, the decimal digits of cols, one space, \<open>]\<close>, \<open>[\<close>, the
  payload of the coarse structure, \<open>]\<close>, and returns with the stream in good state; on a
  stream that is not in good state it raises \<open>ExcIO\<close>. (The stream is the one of the
  model: it formats numbers in decimal and accepts every write.)
\<close>

theorem block_write_format:
  "(o_good out \<longrightarrow>
      block_write payload p out =
        Inr (out\<lparr>o_bytes := o_bytes out @ ''['' @ dec_digits (unat (rows p)) @ '' ''
                    @ dec_digits (unat (cols p)) @ '' '' @ '']'' @ ''[''
                    @ payload (sparsity_pattern p) @ '']''\<rparr>))
   \<and> (\<not> o_good out \<longrightarrow> block_write payload p out = Inl ExcIO)"
proof (intro conjI impI)
  assume "o_good out"
  from block_write_bytes [OF this, of payload p]
  show "block_write payload p out =
        Inr (out\<lparr>o_bytes := o_bytes out @ ''['' @ dec_digits (unat (rows p)) @ '' ''
                    @ dec_digits (unat (cols p)) @ '' '' @ '']'' @ ''[''
                    @ payload (sparsity_pattern p) @ '']''\<rparr>)"
    by simp
next
  assume "\<not> o_good out"
  then show "block_write payload p out = Inl ExcIO"
    by (simp add: block_write_def)
qed

text \<open>
  A 12 by 305 pattern written to an empty stream in good state, and to a stream that has
  failed.
\<close>

theorem block_write_format_witness:
  "o_good \<lparr>o_good = True, o_bytes = []\<rparr>
   \<and> block_write (\<lambda>sp. ''x'')
        \<lparr>rows = 12, cols = 305, chunk_size = 4, sparsity_pattern = sp_reinit 4 77 [0, 0, 0, 0] False\<rparr>
        \<lparr>o_good = True, o_bytes = []\<rparr> = Inr \<lparr>o_good = True, o_bytes = ''[12 305 ][x]''\<rparr>
   \<and> \<not> o_good \<lparr>o_good = False, o_bytes = ''ab''\<rparr>
   \<and> block_write (\<lambda>sp. ''x'')
        \<lparr>rows = 12, cols = 305, chunk_size = 4, sparsity_pattern = sp_reinit 4 77 [0, 0, 0, 0] False\<rparr>
        \<lparr>o_good = False, o_bytes = ''ab''\<rparr> = Inl ExcIO"
proof -
  let ?P = "\<lparr>rows = 12, cols = 305, chunk_size = 4,
      sparsity_pattern = sp_reinit 4 77 [0, 0, 0, 0] False\<rparr>"
  have g: "o_good \<lparr>o_good = True, o_bytes = []\<rparr>" by simp
  have f: "\<not> o_good \<lparr>o_good = False, o_bytes = ''ab''\<rparr>" by simp
  have d: "dec_digits 12 = ''12''" "dec_digits 305 = ''305''"
    by (simp_all add: dec_digits.simps digit_char_def)
  from block_write_format [of "\<lparr>o_good = True, o_bytes = []\<rparr>" "\<lambda>sp. ''x''" ?P]
    block_write_format [of "\<lparr>o_good = False, o_bytes = ''ab''\<rparr>" "\<lambda>sp. ''x''" ?P] g f
  show ?thesis by (simp add: d)
qed

text \<open>
  C3. The spec sizes the coarse structure at \<open>ceil(m / c)\<close> by \<open>ceil(n / c)\<close> chunk rows and
  columns, so that an \<open>m\<close> divisible by \<open>c\<close> gives \<open>m / c\<close> chunk rows, and the comment in
  \<^verbatim>\<open>reinit\<close> gives the rounding as \<^verbatim>\<open>(m+chunk_size-1)/chunk_size\<close>. The code divides
  \<^verbatim>\<open>m+chunk_size\<close> instead: for \<open>m = n = 8\<close> and chunk size 4 it sizes the coarse structure
  3 by 3, where the rounding up is 2.
\<close>

theorem reinit_chunk_count_8_by_4:
  "map_sum id (\<lambda>p. (sp_rows (sparsity_pattern p), sp_cols (sparsity_pattern p)))
     (reinit_uniform 8 8 1 4 False) = Inr (3, 3)
   \<and> (ceil_div 8 4, ceil_div 8 4) = (2, 2)"
  by code_simp

text \<open>
  C4. After a successful \<^verbatim>\<open>reinit (m, n, row_lengths, c, ...)\<close> the capacity handed to the
  coarse structure for chunk row \<open>k\<close> is the maximum of \<open>row_lengths[i]\<close> over the logical
  rows \<open>i < m\<close> with \<open>i div c = k\<close>: it bounds each of them and is one of them; a chunk
  row that holds no logical row keeps the initial capacity 0.
\<close>

theorem reinit_capacity_is_max:
  assumes "reinit m n row_lengths c od = Inr p"
    and "k < unat (sp_rows (sparsity_pattern p))"
  shows "length (sp_row_lengths (sparsity_pattern p)) = unat (sp_rows (sparsity_pattern p))
     \<and> sp_row_lengths (sparsity_pattern p) ! k =
         Max (insert 0 {row_lengths ! i |i. i < unat m \<and> i div unat c = k})
     \<and> (\<forall>i<unat m. i div unat c = k \<longrightarrow> row_lengths ! i \<le> sp_row_lengths (sparsity_pattern p) ! k)
     \<and> ((\<exists>i<unat m. i div unat c = k \<and> sp_row_lengths (sparsity_pattern p) ! k = row_lengths ! i)
         \<or> ((\<forall>i<unat m. i div unat c \<noteq> k) \<and> sp_row_lengths (sparsity_pattern p) ! k = 0))"
proof -
  let ?crl = "sp_row_lengths (sparsity_pattern p)"
  let ?S = "(!) row_lengths ` rows_of_chunk (unat m) (unat c) k"
  have S: "{row_lengths ! i |i. i < unat m \<and> i div unat c = k} = ?S"
    by (auto simp: rows_of_chunk_def)
  have fold: "fold (chunk_row_step c row_lengths) [0..<unat m]
      (Some (replicate (unat ((m + c) div c)) 0)) = Some ?crl"
    using reinit_Inr_fields(11) [OF assms(1)] by (simp add: chunk_row_lengths_def)
  have m: "unat m \<le> 2 ^ 32"
    using unsigned_less [of m, where 'a = nat] by simp
  from chunk_row_fold_max [OF fold m]
  have len: "length ?crl = unat ((m + c) div c)"
    and mx: "\<And>k. k < unat ((m + c) div c) \<Longrightarrow>
       ?crl ! k = Max (insert (replicate (unat ((m + c) div c)) 0 ! k)
                   ((!) row_lengths ` rows_of_chunk (unat m) (unat c) k))"
    by simp_all
  have k: "k < unat ((m + c) div c)"
    using assms(2) reinit_Inr_fields(6) [OF assms(1)] by simp
  have val: "?crl ! k = Max (insert 0 ?S)"
    using mx [OF k] k by simp
  have fin: "finite (insert 0 ?S)" by simp
  have ub: "\<forall>i<unat m. i div unat c = k \<longrightarrow> row_lengths ! i \<le> ?crl ! k"
  proof (intro allI impI)
    fix i assume "i < unat m" "i div unat c = k"
    then have "row_lengths ! i \<in> insert 0 ?S" by (simp add: rows_of_chunk_def)
    then show "row_lengths ! i \<le> ?crl ! k"
      unfolding val using fin by (rule_tac Max_ge)
  qed
  have "Max (insert 0 ?S) \<in> insert 0 ?S"
    using fin by (rule Max_in) simp
  then have att: "?crl ! k = 0 \<or> ?crl ! k \<in> ?S"
    unfolding val by simp
  have attained: "(\<exists>i<unat m. i div unat c = k \<and> ?crl ! k = row_lengths ! i)
         \<or> ((\<forall>i<unat m. i div unat c \<noteq> k) \<and> ?crl ! k = 0)"
  proof (cases "\<exists>i<unat m. i div unat c = k")
    case False
    then have "?S = {}" by (auto simp: rows_of_chunk_def)
    then show ?thesis using val False by simp
  next
    case True
    then obtain i where i: "i < unat m" "i div unat c = k" by blast
    show ?thesis
    proof (cases "?crl ! k \<in> ?S")
      case True
      then show ?thesis by (auto simp: rows_of_chunk_def)
    next
      case False
      with att have z: "?crl ! k = 0" by simp
      from ub i have "row_lengths ! i \<le> ?crl ! k" by simp
      with z have "?crl ! k = row_lengths ! i" by simp
      with i show ?thesis by blast
    qed
  qed
  show ?thesis
    using len reinit_Inr_fields(6) [OF assms(1)] val ub attained unfolding S by simp
qed

text \<open>
  Five logical rows of lengths 2, 7, 1, 4, 9 in chunks of two: the chunk rows get the
  capacities 7, 4 and 9; the first is the larger of 2 and 7, not their sum.
\<close>

theorem reinit_capacity_is_max_witness:
  "reinit 5 3 [2, 7, 1, 4, 9] 2 False =
     Inr \<lparr>rows = 5, cols = 3, chunk_size = 2,
          sparsity_pattern = \<lparr>sp_rows = 3, sp_cols = 2, sp_row_lengths = [7, 4, 9],
            sp_optimize_diag = False, sp_entries = {}, sp_compressed = False\<rparr>\<rparr>
   \<and> (7::u32) = Max (insert 0 {[2, 7, 1, 4, 9] ! i |i. i < unat (5::u32) \<and> i div unat (2::u32) = 0})
   \<and> (7::u32) \<noteq> 2 + 7"
proof -
  let ?P = "\<lparr>rows = 5, cols = 3, chunk_size = 2,
          sparsity_pattern = \<lparr>sp_rows = 3, sp_cols = 2, sp_row_lengths = [7, 4, 9],
            sp_optimize_diag = False, sp_entries = {}, sp_compressed = False\<rparr>\<rparr>"
  have r: "reinit 5 3 [2, 7, 1, 4, 9] 2 False = Inr ?P"
    by code_simp
  have k: "0 < unat (sp_rows (sparsity_pattern ?P))"
    by simp
  from reinit_capacity_is_max [OF r k] r show ?thesis
    by simp
qed

text \<open>
  C5. On a pattern with a positive chunk size, \<^verbatim>\<open>add (i, j)\<close> fails exactly when
  \<open>i \<ge> rows\<close> or \<open>j \<ge> cols\<close>, with the index condition of the offending argument;
  otherwise it inserts chunk \<open>(i div c, j div c)\<close> into the coarse structure and changes
  nothing else, and a second \<^verbatim>\<open>add (i, j)\<close> returns the pattern as the first left it.
\<close>

theorem add_in_range_idempotent:
  assumes "chunk_size p \<noteq> 0"
  shows "(isl (add p i j) \<longleftrightarrow> rows p \<le> i \<or> cols p \<le> j)
     \<and> (rows p \<le> i \<longrightarrow> add p i j = Inl (ExcInvalidIndex i (rows p)))
     \<and> (i < rows p \<and> cols p \<le> j \<longrightarrow> add p i j = Inl (ExcInvalidIndex j (cols p)))
     \<and> (i < rows p \<and> j < cols p \<longrightarrow>
          (\<exists>p'. add p i j = Inr p' \<and> rows p' = rows p \<and> cols p' = cols p
              \<and> chunk_size p' = chunk_size p
              \<and> sp_entries (sparsity_pattern p') =
                  insert (i div chunk_size p, j div chunk_size p) (sp_entries (sparsity_pattern p))
              \<and> add p' i j = Inr p'))"
  using assms by (auto simp: add_def sp_add_def not_less insert_absorb)

text \<open>
  The boundary cases of the spec on a 10 by 10 pattern with chunk size 4: \<open>add (9, 9)\<close>
  succeeds, \<open>add (10, 0)\<close> and \<open>add (0, 10)\<close> fail.
\<close>

theorem add_in_range_idempotent_witness:
  "chunk_size \<lparr>rows = 10, cols = 10, chunk_size = 4,
       sparsity_pattern = sp_reinit 3 3 [1, 1, 1] False\<rparr> \<noteq> 0
   \<and> \<not> isl (add \<lparr>rows = 10, cols = 10, chunk_size = 4,
       sparsity_pattern = sp_reinit 3 3 [1, 1, 1] False\<rparr> 9 9)
   \<and> add \<lparr>rows = 10, cols = 10, chunk_size = 4,
       sparsity_pattern = sp_reinit 3 3 [1, 1, 1] False\<rparr> 10 0 = Inl (ExcInvalidIndex 10 10)
   \<and> add \<lparr>rows = 10, cols = 10, chunk_size = 4,
       sparsity_pattern = sp_reinit 3 3 [1, 1, 1] False\<rparr> 0 10 = Inl (ExcInvalidIndex 10 10)"
proof -
  let ?P = "\<lparr>rows = 10, cols = 10, chunk_size = 4,
       sparsity_pattern = sp_reinit 3 3 [1, 1, 1] False\<rparr>"
  have c: "chunk_size ?P \<noteq> 0" by simp
  from add_in_range_idempotent [OF c, of 9 9] add_in_range_idempotent [OF c, of 10 0]
    add_in_range_idempotent [OF c, of 0 10] c
  show ?thesis by simp
qed

text \<open>
  C6. On a pattern with a positive chunk size: after \<^verbatim>\<open>add (i1, j1)\<close> the query
  \<^verbatim>\<open>exists (i2, j2)\<close> is true for every in-range \<open>(i2, j2)\<close> of the same chunk; and for
  in-range \<open>(i, j)\<close> the query returns what the coarse structure records for chunk
  \<open>(i div c, j div c)\<close>.
\<close>

theorem exists_iff_chunk_present:
  assumes "chunk_size p \<noteq> 0"
  shows "(i1 < rows p \<and> j1 < cols p \<and> i2 < rows p \<and> j2 < cols p
          \<and> i1 div chunk_size p = i2 div chunk_size p
          \<and> j1 div chunk_size p = j2 div chunk_size p
          \<longrightarrow> (\<exists>p'. add p i1 j1 = Inr p' \<and> exists p' i2 j2 = Inr True))
     \<and> (i < rows p \<and> j < cols p \<longrightarrow>
          exists p i j =
            Inr ((i div chunk_size p, j div chunk_size p) \<in> sp_entries (sparsity_pattern p)))"
  using assms by (auto simp: add_def exists_def sp_add_def sp_exists_def)

text \<open>
  The scenario of the spec: in a 10 by 10 pattern with chunk size 4, \<open>add (0, 0)\<close> makes
  \<open>exists (1, 1)\<close> true, and \<open>exists (5, 5)\<close> is false on the empty pattern.
\<close>

theorem exists_iff_chunk_present_witness:
  "(\<exists>p'. add \<lparr>rows = 10, cols = 10, chunk_size = 4,
             sparsity_pattern = sp_reinit 3 3 [1, 1, 1] False\<rparr> 0 0 = Inr p'
         \<and> exists p' 1 1 = Inr True)
   \<and> exists \<lparr>rows = 10, cols = 10, chunk_size = 4,
             sparsity_pattern = sp_reinit 3 3 [1, 1, 1] False\<rparr> 5 5 = Inr False"
proof -
  let ?P = "\<lparr>rows = 10, cols = 10, chunk_size = 4,
       sparsity_pattern = sp_reinit 3 3 [1, 1, 1] False\<rparr>"
  have c: "chunk_size ?P \<noteq> 0" by simp
  from exists_iff_chunk_present [OF c, of 0 0 1 1 5 5]
  show ?thesis by (simp add: sp_reinit_def)
qed

text \<open>
  C7. Let any of the four kinds of source hold the same set \<open>E\<close> of structurally nonzero
  positions of an \<open>m\<close> by \<open>n\<close> matrix: a compressed pattern with ordered rows, one with
  set-like rows, a dense matrix, or the row lengths and the insertion sequence of a
  caller's own \<^verbatim>\<open>reinit\<close>, \<^verbatim>\<open>add\<close>, \<^verbatim>\<open>compress\<close>. Then for every chunk size each
  construction returns what \<open>pattern_of_entries\<close> computes from \<open>m\<close>, \<open>n\<close> and \<open>E\<close>, so any
  two of them return the same result: the same pattern, with the same coarse structure,
  or the same error. In the pattern returned, \<^verbatim>\<open>exists (i, j)\<close> holds exactly for the
  positions of the chunks of \<open>E\<close>; and it answers alike in the pattern a caller builds
  with any other row lengths that \<^verbatim>\<open>reinit\<close> accepts.
\<close>

theorem copy_from_overloads_agree:
  fixes M :: "'a::zero FullMatrix"
  shows
   "(csp_represents csp m n E \<longrightarrow> copy_from_csp csp c od = pattern_of_entries m n E c od)
  \<and> (cset_represents s m n E \<longrightarrow> copy_from_cset s c od = pattern_of_entries m n E c od)
  \<and> (fm_represents M m n E \<longrightarrow> copy_from_fm M c od = pattern_of_entries m n E c od)
  \<and> (explicit_represents row_lengths insertions m n E \<longrightarrow>
        build_explicit m n row_lengths c od insertions = pattern_of_entries m n E c od)
  \<and> (csp_represents csp m n E \<and> cset_represents s m n E \<longrightarrow>
        copy_from_csp csp c od = copy_from_cset s c od)
  \<and> (csp_represents csp m n E \<and> fm_represents M m n E \<longrightarrow>
        copy_from_csp csp c od = copy_from_fm M c od)
  \<and> (csp_represents csp m n E \<and> explicit_represents row_lengths insertions m n E \<longrightarrow>
        copy_from_csp csp c od = build_explicit m n row_lengths c od insertions)
  \<and> (cset_represents s m n E \<and> fm_represents M m n E \<longrightarrow>
        copy_from_cset s c od = copy_from_fm M c od)
  \<and> (cset_represents s m n E \<and> explicit_represents row_lengths insertions m n E \<longrightarrow>
        copy_from_cset s c od = build_explicit m n row_lengths c od insertions)
  \<and> (fm_represents M m n E \<and> explicit_represents row_lengths insertions m n E \<longrightarrow>
        copy_from_fm M c od = build_explicit m n row_lengths c od insertions)
  \<and> (\<forall>p i j. pattern_of_entries m n E c od = Inr p \<and> i < m \<and> j < n
        \<longrightarrow> exists p i j = Inr ((i div c, j div c) \<in> chunk_of c ` E))
  \<and> (\<forall>rl p q i j.
        build_explicit m n rl c od insertions = Inr p
        \<and> set insertions = E \<and> (\<forall>e \<in> set insertions. fst e < m \<and> snd e < n)
        \<and> pattern_of_entries m n E c od = Inr q
      \<longrightarrow> exists p i j = exists q i j)"
proof -
  have csp: "copy_from_csp csp c od = pattern_of_entries m n E c od"
    if "csp_represents csp m n E"
    using that copy_from_csp_canonical [of csp c od] by (auto simp: csp_represents_def)
  have cset: "copy_from_cset s c od = pattern_of_entries m n E c od"
    if "cset_represents s m n E"
    using that copy_from_cset_canonical [of s c od] by (auto simp: cset_represents_def)
  have fm: "copy_from_fm M c od = pattern_of_entries m n E c od"
    if "fm_represents M m n E"
    using that copy_from_fm_canonical [of M c od] by (auto simp: fm_represents_def)
  have expl: "build_explicit m n row_lengths c od insertions = pattern_of_entries m n E c od"
    if "explicit_represents row_lengths insertions m n E"
    using that build_explicit_canonical [of row_lengths insertions m n c od]
    by (auto simp: explicit_represents_def)
  have ex: "exists p i j = Inr ((i div c, j div c) \<in> chunk_of c ` E)"
    if "pattern_of_entries m n E c od = Inr p" "i < m" "j < n" for p i j
    using that by (rule pattern_of_entries_exists)
  have other: "exists p i j = exists q i j"
    if "build_explicit m n rl c od insertions = Inr p" "set insertions = E"
      "\<forall>e \<in> set insertions. fst e < m \<and> snd e < n"
      "pattern_of_entries m n E c od = Inr q" for rl p q i j
    using build_explicit_fields [OF that(1,3)] pattern_of_entries_fields [OF that(4)] that(2)
    by (intro exists_same_entries) simp_all
  show ?thesis
    using csp cset fm expl ex other by (intro conjI impI allI) (simp_all, blast)
qed

text \<open>
  A 2 by 3 matrix with the nonzero positions (0,0), (0,2) and (1,2), the two compressed
  patterns with these positions, and a caller that inserts them in another order and
  (0,0) twice: with chunk size 2 all four build \<open>demo_built\<close>, and a caller that
  passes the row lengths 3 and 3 builds another pattern with the same answers. The two
  compressed patterns of dimension 65536 by 65536 with column 7 in every row, for which
  no dense matrix fits the component array, give the same result as well.
\<close>

theorem copy_from_overloads_agree_witness:
  "csp_represents demo_csp 2 3 {(0, 0), (0, 2), (1, 2)}
   \<and> cset_represents demo_cset 2 3 {(0, 0), (0, 2), (1, 2)}
   \<and> fm_represents demo_matrix 2 3 {(0, 0), (0, 2), (1, 2)}
   \<and> explicit_represents [2, 1] [(1, 2), (0, 0), (0, 2), (0, 0)] 2 3 {(0, 0), (0, 2), (1, 2)}
   \<and> copy_from_csp demo_csp 2 False = Inr demo_built
   \<and> copy_from_cset demo_cset 2 False = Inr demo_built
   \<and> copy_from_fm demo_matrix 2 False = Inr demo_built
   \<and> build_explicit 2 3 [2, 1] 2 False [(1, 2), (0, 0), (0, 2), (0, 0)] = Inr demo_built
   \<and> exists demo_built 1 0 = Inr True
   \<and> (\<exists>p. build_explicit 2 3 [3, 3] 2 False [(1, 2), (0, 0), (0, 2), (0, 0)] = Inr p
          \<and> p \<noteq> demo_built \<and> exists p 1 0 = exists demo_built 1 0)
   \<and> csp_represents \<lparr>csp_n_rows = 65536, csp_n_cols = 65536, csp_lines = replicate 65536 [7]\<rparr>
        65536 65536 (set (lines_entries 65536 (replicate 65536 [7])))
   \<and> cset_represents \<lparr>cset_n_rows = 65536, cset_n_cols = 65536, cset_lines = replicate 65536 [7]\<rparr>
        65536 65536 (set (lines_entries 65536 (replicate 65536 [7])))
   \<and> copy_from_csp \<lparr>csp_n_rows = 65536, csp_n_cols = 65536, csp_lines = replicate 65536 [7]\<rparr>
        16 True
      = copy_from_cset \<lparr>cset_n_rows = 65536, cset_n_cols = 65536, cset_lines = replicate 65536 [7]\<rparr>
        16 True"
proof -
  let ?E = "{(0, 0), (0, 2), (1, 2)} :: (u32 \<times> u32) set"
  let ?ins = "[(1, 2), (0, 0), (0, 2), (0, 0)] :: (u32 \<times> u32) list"
  have e1: "set (csp_entries demo_csp) = ?E"
    unfolding demo_csp_def by code_simp
  have e2: "set (cset_entries demo_cset) = ?E"
    unfolding demo_cset_def by code_simp
  have e3: "set (fm_entries demo_matrix) = ?E"
    unfolding demo_matrix_def by code_simp
  have r1: "csp_represents demo_csp 2 3 ?E"
    unfolding csp_represents_def e1
    by (simp add: demo_csp_def csp_wf_def lines_wf_def)
  have r2: "cset_represents demo_cset 2 3 ?E"
    unfolding cset_represents_def e2
    by (simp add: demo_cset_def cset_wf_def lines_wf_def)
  have r3: "fm_represents demo_matrix 2 3 ?E"
    unfolding fm_represents_def e3
    by (simp add: demo_matrix_def fm_wf_def)
  have rl: "[2, 1] = map (row_count ?E) (upto_u32 2)"
    by code_simp
  have r4: "explicit_represents [2, 1] ?ins 2 3 ?E"
    unfolding explicit_represents_def rl [symmetric] by auto
  have hub: "pattern_of_entries 2 3 ?E 2 False = Inr demo_built"
    unfolding demo_built_def by code_simp
  have other: "build_explicit 2 3 [3, 3] 2 False ?ins
      = Inr (demo_built\<lparr>sparsity_pattern := (sparsity_pattern demo_built)\<lparr>sp_row_lengths := [3, 0]\<rparr>\<rparr>)"
    unfolding demo_built_def by code_simp
  have ne: "demo_built\<lparr>sparsity_pattern := (sparsity_pattern demo_built)\<lparr>sp_row_lengths := [3, 0]\<rparr>\<rparr>
      \<noteq> demo_built"
    by (simp add: demo_built_def)
  have rng: "(1::u32) < 2 \<and> (0::u32) < 3" by simp
  have mem: "((1::u32) div 2, (0::u32) div 2) \<in> chunk_of 2 ` ?E"
    by (simp add: chunk_of_def)
  have ins: "set ?ins = ?E \<and> (\<forall>e \<in> set ?ins. fst e < 2 \<and> snd e < 3)"
    by auto
  let ?L = "replicate 65536 [7] :: u32 list list"
  let ?big = "\<lparr>csp_n_rows = 65536, csp_n_cols = 65536, csp_lines = ?L\<rparr>"
  let ?bigs = "\<lparr>cset_n_rows = 65536, cset_n_cols = 65536, cset_lines = ?L\<rparr>"
  let ?F = "set (lines_entries 65536 ?L)"
  have wfL: "lines_wf 65536 65536 ?L"
    by (simp add: lines_wf_def)
  have b1: "csp_represents ?big 65536 65536 ?F"
    using wfL by (simp add: csp_represents_def csp_wf_def csp_entries_def)
  have b2: "cset_represents ?bigs 65536 65536 ?F"
    using wfL by (simp add: cset_represents_def cset_wf_def cset_entries_def)
  note small = copy_from_overloads_agree
      [of demo_csp 2 3 ?E 2 False demo_cset demo_matrix "[2, 1]" ?ins]
  note big = copy_from_overloads_agree [where ?'a = int,
      of ?big 65536 65536 ?F 16 True ?bigs]
  have a1: "copy_from_csp demo_csp 2 False = Inr demo_built"
    using small [THEN conjunct1] r1 hub by (simp only:)
  have a2: "copy_from_cset demo_cset 2 False = Inr demo_built"
    using small [THEN conjunct2, THEN conjunct1] r2 hub by (simp only:)
  have a3: "copy_from_fm demo_matrix 2 False = Inr demo_built"
    using small [THEN conjunct2, THEN conjunct2, THEN conjunct1] r3 hub by (simp only:)
  have a4: "build_explicit 2 3 [2, 1] 2 False ?ins = Inr demo_built"
    using small [THEN conjunct2, THEN conjunct2, THEN conjunct2, THEN conjunct1] r4 hub
    by (simp only:)
  have ex: "exists demo_built 1 0 = Inr True"
  proof -
    from small have "\<forall>p i j. pattern_of_entries 2 3 ?E 2 False = Inr p \<and> i < 2 \<and> j < 3
        \<longrightarrow> exists p i j = Inr ((i div 2, j div 2) \<in> chunk_of 2 ` ?E)"
      by (elim conjE)
    then have "exists demo_built 1 0 = Inr ((1 div 2, 0 div 2) \<in> chunk_of 2 ` ?E)"
      using hub rng by blast
    then show ?thesis using mem by (simp only: simp_thms)
  qed
  have ex2: "exists (demo_built\<lparr>sparsity_pattern := (sparsity_pattern demo_built)\<lparr>sp_row_lengths := [3, 0]\<rparr>\<rparr>) 1 0
      = exists demo_built 1 0"
  proof -
    from small have "\<forall>rl p q i j.
        build_explicit 2 3 rl 2 False ?ins = Inr p
        \<and> set ?ins = ?E \<and> (\<forall>e \<in> set ?ins. fst e < 2 \<and> snd e < 3)
        \<and> pattern_of_entries 2 3 ?E 2 False = Inr q
      \<longrightarrow> exists p i j = exists q i j"
      by (elim conjE)
    then show ?thesis using other ins hub by blast
  qed
  have bigeq: "copy_from_csp ?big 16 True = copy_from_cset ?bigs 16 True"
    using big [THEN conjunct2, THEN conjunct2, THEN conjunct2, THEN conjunct2, THEN conjunct1]
      b1 b2 by blast
  show ?thesis
    using r1 r2 r3 r4 a1 a2 a3 a4 ex other ne ex2 b1 b2 bigeq by blast
qed

text \<open>
  C8. \<^verbatim>\<open>bandwidth ()\<close> is the smaller of \<open>coarse bandwidth * chunk_size + (chunk_size - 1)\<close>
  and \<open>max(rows, cols)\<close>, in the unsigned arithmetic of the source. On every pattern that
  \<^verbatim>\<open>reinit\<close>, \<^verbatim>\<open>add\<close> and \<^verbatim>\<open>compress\<close> build without wrap-around (\<open>built_inv\<close>) the first
  term does not wrap, and the value is the same minimum over the natural numbers.
\<close>

theorem bandwidth_formula:
  "bandwidth p = min (sp_bandwidth (sparsity_pattern p) * chunk_size p + (chunk_size p - 1))
                     (max (rows p) (cols p))
   \<and> (built_inv p
      \<longrightarrow> unat (bandwidth p) =
            min (unat (sp_bandwidth (sparsity_pattern p)) * unat (chunk_size p)
                   + (unat (chunk_size p) - 1))
                (max (unat (rows p)) (unat (cols p))))"
proof (intro conjI impI)
  show "bandwidth p = min (sp_bandwidth (sparsity_pattern p) * chunk_size p + (chunk_size p - 1))
                     (max (rows p) (cols p))"
    by (simp add: bandwidth_def n_rows_def n_cols_def)
next
  assume inv: "built_inv p"
  then have "chunk_size p \<noteq> 0" by (simp add: built_inv_def)
  then show "unat (bandwidth p) =
      min (unat (sp_bandwidth (sparsity_pattern p)) * unat (chunk_size p)
             + (unat (chunk_size p) - 1))
          (max (unat (rows p)) (unat (cols p)))"
    using built_inv_no_wrap [OF inv] by (rule bandwidth_unat)
qed

text \<open>
  The scenario of the spec: chunks (0,0), (0,1) and (2,2) of a 10 by 10 pattern with
  chunk size 4 have coarse bandwidth 1, so the bandwidth is \<open>min (1 * 4 + 3) 10 = 7\<close>.
\<close>

theorem bandwidth_formula_witness:
  "built_inv \<lparr>rows = 10, cols = 10, chunk_size = 4,
       sparsity_pattern = \<lparr>sp_rows = 3, sp_cols = 3, sp_row_lengths = [2, 0, 1],
         sp_optimize_diag = False, sp_entries = {(0, 0), (0, 1), (2, 2)},
         sp_compressed = True\<rparr>\<rparr>
   \<and> sp_bandwidth \<lparr>sp_rows = 3, sp_cols = 3, sp_row_lengths = [2, 0, 1],
       sp_optimize_diag = False, sp_entries = {(0, 0), (0, 1), (2, 2)},
       sp_compressed = True\<rparr> = 1
   \<and> unat (bandwidth \<lparr>rows = 10, cols = 10, chunk_size = 4,
       sparsity_pattern = \<lparr>sp_rows = 3, sp_cols = 3, sp_row_lengths = [2, 0, 1],
         sp_optimize_diag = False, sp_entries = {(0, 0), (0, 1), (2, 2)},
         sp_compressed = True\<rparr>\<rparr>) = 7"
proof -
  let ?SP = "\<lparr>sp_rows = 3, sp_cols = 3, sp_row_lengths = [2, 0, 1],
       sp_optimize_diag = False, sp_entries = {(0, 0), (0, 1), (2, 2)},
       sp_compressed = True\<rparr>"
  let ?P = "\<lparr>rows = 10, cols = 10, chunk_size = 4, sparsity_pattern = ?SP\<rparr>"
  have b: "sp_bandwidth ?SP = 1"
    by (simp add: sp_bandwidth_def index_distance_def)
  have h: "built_inv ?P"
    by (simp add: built_inv_def)
  from bandwidth_formula [of ?P] h b show ?thesis
    by simp
qed

text \<open>
  C9. Copy assignment and copy construction from a source with \<open>rows \<noteq> 0\<close> or
  \<open>cols \<noteq> 0\<close> fail: the assignment with \<open>ExcInvalidConstructorCall\<close>, the construction
  with the same condition unless the copy of the coarse structure in its member
  initialiser has failed before. Hence neither succeeds on a sized source.
\<close>

theorem copy_requires_unsized_source:
  assumes "rows s \<noteq> 0 \<or> cols s \<noteq> 0"
  shows "assign sp_assign this s = Inl ExcInvalidConstructorCall
     \<and> isl (copy_ctor sp_copy s)
     \<and> (\<not> isl (sp_copy (sparsity_pattern s))
          \<longrightarrow> copy_ctor sp_copy s = Inl ExcInvalidConstructorCall)"
  using assms by (auto simp: assign_def copy_ctor_def split: sum.splits)

theorem copy_requires_unsized_source_witness:
  "rows \<lparr>rows = 10, cols = 0, chunk_size = 4,
       sparsity_pattern = sp_reinit 3 1 [1, 1, 1] False\<rparr> \<noteq> 0
   \<and> assign (\<lambda>a b. Inr b)
        \<lparr>rows = 2, cols = 2, chunk_size = 1, sparsity_pattern = sp_reinit 3 3 [1, 1, 1] True\<rparr>
        \<lparr>rows = 10, cols = 0, chunk_size = 4,
         sparsity_pattern = sp_reinit 3 1 [1, 1, 1] False\<rparr> = Inl ExcInvalidConstructorCall
   \<and> copy_ctor Inr \<lparr>rows = 10, cols = 0, chunk_size = 4,
         sparsity_pattern = sp_reinit 3 1 [1, 1, 1] False\<rparr> = Inl ExcInvalidConstructorCall"
proof -
  let ?S = "\<lparr>rows = 10, cols = 0, chunk_size = 4,
       sparsity_pattern = sp_reinit 3 1 [1, 1, 1] False\<rparr>"
  have h: "rows ?S \<noteq> 0 \<or> cols ?S \<noteq> 0" by simp
  from copy_requires_unsized_source [OF h, of "\<lambda>a b. Inr b" _ Inr] h
  show ?thesis by simp
qed

text \<open>
  The assignment from an unsized source does go through, and stores the coarse
  structure only.
\<close>

lemma assign_from_unsized:
  "rows s = 0 \<Longrightarrow> cols s = 0 \<Longrightarrow> sp_assign (sparsity_pattern this) (sparsity_pattern s) = Inr sp
     \<Longrightarrow> assign sp_assign this s = Inr (this\<lparr>sparsity_pattern := sp\<rparr>)"
  by (simp add: assign_def)

text \<open>
  C10. The default constructor and the copy constructor call \<^verbatim>\<open>reinit\<close> with chunk size
  0 and so reach the unsigned division by zero in the chunk-count computation; \<^verbatim>\<open>reinit\<close>
  with a row-length vector of the right size meets that division by zero exactly when the
  chunk size is 0.
\<close>

theorem constructors_divide_by_zero:
  "default_ctor od = Inl DivideByZero
   \<and> (rows s = 0 \<and> cols s = 0 \<and> sp_copy (sparsity_pattern s) = Inr sp
        \<longrightarrow> copy_ctor sp_copy s = Inl DivideByZero)
   \<and> (length row_lengths = unat m
        \<longrightarrow> (reinit m n row_lengths c od' = Inl DivideByZero \<longleftrightarrow> c = 0))"
  using reinit_not_div_zero [of c m n row_lengths od']
  by (auto simp: default_ctor_def copy_ctor_def reinit_uniform_zero_chunk reinit_zero_chunk)

theorem constructors_divide_by_zero_witness:
  "copy_ctor Inr \<lparr>rows = 0, cols = 0, chunk_size = 3,
       sparsity_pattern = sp_reinit 1 1 [0] False\<rparr> = Inl DivideByZero
   \<and> reinit 2 2 [1, 1] 0 False = Inl DivideByZero
   \<and> reinit 2 2 [1, 1] 1 False \<noteq> Inl DivideByZero"
  using constructors_divide_by_zero [of _ "\<lparr>rows = 0, cols = 0, chunk_size = 3,
       sparsity_pattern = sp_reinit 1 1 [0] False\<rparr>" Inr "sp_reinit 1 1 [0] False" "[1, 1]" 2 2 0 False]
    constructors_divide_by_zero [of _ "\<lparr>rows = 0, cols = 0, chunk_size = 3,
       sparsity_pattern = sp_reinit 1 1 [0] False\<rparr>" Inr "sp_reinit 1 1 [0] False" "[1, 1]" 2 2 1 False]
  by simp


end
